theory Spec2Isabelle
  imports Main "HOL-Library.Word"
begin

section \<open>Text: QString as a list of UTF-16 code units\<close>

text \<open>
  The editor of \<^verbatim>\<open>main.cpp\<close> works on \<^verbatim>\<open>QString\<close> values. A \<^verbatim>\<open>QString\<close> is a
  sequence of \<^verbatim>\<open>QChar\<close>, each a 16-bit UTF-16 code unit, so a text is a list of 16-bit
  words. \<open>QS\<close> turns an ASCII literal of the source into such a list.
\<close>

type_synonym qchar = "16 word"
type_synonym qstring = "qchar list"

definition QS :: "string \<Rightarrow> qstring" where
  "QS s = map of_char s"

text \<open>
  \<^verbatim>\<open>QChar::isSpace\<close> (Qt library): the ASCII white space U+0009..U+000D and U+0020, the
  next-line control U+0085, and the Unicode separators (categories Zs, Zl and Zp, the
  no-break space U+00A0 among them).
\<close>

definition isSpace :: "qchar \<Rightarrow> bool" where
  "isSpace c \<longleftrightarrow>
     c = 0x20 \<or> (0x09 \<le> c \<and> c \<le> 0x0D) \<or> c = 0x85 \<or> c = 0xA0 \<or> c = 0x1680 \<or>
     (0x2000 \<le> c \<and> c \<le> 0x200A) \<or> c = 0x2028 \<or> c = 0x2029 \<or> c = 0x202F \<or>
     c = 0x205F \<or> c = 0x3000"

text \<open>\<^verbatim>\<open>QString::trimmed\<close>: white space removed from both ends.\<close>

definition trimmed :: "qstring \<Rightarrow> qstring" where
  "trimmed s = rev (dropWhile isSpace (rev (dropWhile isSpace s)))"

text \<open>
  \<^verbatim>\<open>QString::split(QChar sep)\<close> with the default \<^verbatim>\<open>Qt::KeepEmptyParts\<close>: the pieces
  between the separators, empty ones included; the empty string gives one empty piece.
\<close>

fun split_chr :: "qchar \<Rightarrow> qstring \<Rightarrow> qstring list" where
  "split_chr sep [] = [[]]"
| "split_chr sep (c # cs) =
     (if c = sep then [] # split_chr sep cs
      else (case split_chr sep cs of [] \<Rightarrow> [[c]] | l # ls \<Rightarrow> (c # l) # ls))"

text \<open>
  \<^verbatim>\<open>QString::toLower\<close> (Qt library). The program compares lowered strings with ASCII
  literals only; the model lowers the letters A to Z and leaves every other code unit as
  it is, which is what the library does on ASCII text.
\<close>

definition toLower :: "qstring \<Rightarrow> qstring" where
  "toLower s = map (\<lambda>c. if 0x41 \<le> c \<and> c \<le> 0x5A then c + 0x20 else c) s"

text \<open>\<^verbatim>\<open>QString::startsWith\<close>, case sensitive.\<close>

definition startsWith :: "qstring \<Rightarrow> qstring \<Rightarrow> bool" where
  "startsWith s p \<longleftrightarrow> take (length p) s = p"

text \<open>
  \<^verbatim>\<open>QString::split(const QString &sep, Qt::SkipEmptyParts)\<close>: the text is cut at the
  occurrences of \<open>sep\<close> found from left to right, the search resuming behind each
  occurrence, and the empty pieces are dropped. \<open>split_from sep cur s\<close> is the scan with
  the piece \<open>cur\<close> collected so far. The program calls it with a non-empty separator only.
\<close>

fun split_from :: "qstring \<Rightarrow> qstring \<Rightarrow> qstring \<Rightarrow> qstring list" where
  "split_from sep cur [] = [cur]"
| "split_from sep cur (c # cs) =
     (if sep \<noteq> [] \<and> startsWith (c # cs) sep
      then cur # split_from sep [] (drop (length sep) (c # cs))
      else split_from sep (cur @ [c]) cs)"

definition split_skip_empty :: "qstring \<Rightarrow> qstring \<Rightarrow> qstring list" where
  "split_skip_empty sep s = filter (\<lambda>p. p \<noteq> []) (split_from sep [] s)"

text \<open>
  \<^verbatim>\<open>QString::toHtmlEscaped\<close>: the characters \<^verbatim>\<open><\<close>, \<^verbatim>\<open>>\<close>, \<^verbatim>\<open>&\<close> and the double quote
  are replaced by their entities.
\<close>

definition escape_chr :: "qchar \<Rightarrow> qstring" where
  "escape_chr c =
     (if c = 0x3C then QS ''&lt;''
      else if c = 0x3E then QS ''&gt;''
      else if c = 0x26 then QS ''&amp;''
      else if c = 0x22 then QS ''&quot;''
      else [c])"

definition toHtmlEscaped :: "qstring \<Rightarrow> qstring" where
  "toHtmlEscaped s = concat (map escape_chr s)"

section \<open>Paragraph counting\<close>

text \<open>
  \<^verbatim>\<open>countParagraphs\<close> (main.cpp, lines 186 to 200). The loop state is the pair of the
  list \<^verbatim>\<open>paras\<close> and the string \<^verbatim>\<open>cur\<close>; \<open>para_step\<close> is one iteration of the loop
  body for the line \<open>ln\<close>. The C++ result type is \<^verbatim>\<open>int\<close>; the count never exceeds the
  number of lines of the text, so it is modelled as an unbounded integer.
\<close>

definition para_step :: "qstring list \<times> qstring \<Rightarrow> qstring \<Rightarrow> qstring list \<times> qstring" where
  "para_step st ln =
     (case st of (paras, cur) \<Rightarrow>
        if trimmed ln = [] then (if cur \<noteq> [] then (paras @ [cur], []) else (paras, cur))
        else (paras, (if cur \<noteq> [] then cur @ [0x0A] else cur) @ ln))"

definition countParagraphs :: "qstring \<Rightarrow> int" where
  "countParagraphs text =
     (case foldl para_step ([], []) (split_chr 0x0A text) of (paras, cur) \<Rightarrow>
        int (length (if cur \<noteq> [] then paras @ [cur] else paras)))"

section \<open>The HTML format\<close>

text \<open>
  \<^verbatim>\<open>htmlToPlain\<close> (main.cpp, lines 65 to 95). The first loop runs over the characters
  with the state \<^verbatim>\<open>(out, inTag, tag)\<close>; \<open>strip_step\<close> is its body and \<open>tag_break\<close> what
  is appended to \<^verbatim>\<open>out\<close> when a tag closes; \<open>tags_stripped\<close> is the value of
  \<^verbatim>\<open>out\<close> after the loop. The second loop runs over the lines of \<^verbatim>\<open>out\<close> with the
  state \<^verbatim>\<open>(result, emptyCount)\<close>; \<open>collapse_step\<close> is its body and \<open>lines_collapsed\<close>
  the value of \<^verbatim>\<open>result\<close> after it. The function returns \<^verbatim>\<open>result.trimmed()\<close>.
\<close>

definition tag_break :: "qstring \<Rightarrow> qstring" where
  "tag_break tag =
     (let t = toLower (trimmed tag) in
        (if startsWith t (QS ''br'') \<or> startsWith t (QS ''br/'')
         then QS ''\<newline>\<newline>'' else [])
        @ (if startsWith t (QS ''p'') \<or> startsWith t (QS ''/p'')
           then QS ''\<newline>\<newline>'' else []))"

fun strip_step :: "qstring \<times> bool \<times> qstring \<Rightarrow> qchar \<Rightarrow> qstring \<times> bool \<times> qstring" where
  "strip_step (out, inTag, tag) c =
     (if c = 0x3C then (out, True, [])
      else if inTag then
        (if c = 0x3E then (out @ tag_break tag, False, tag)
         else (out, inTag, tag @ [c]))
      else (out @ [c], inTag, tag))"

fun collapse_step :: "qstring \<times> nat \<Rightarrow> qstring \<Rightarrow> qstring \<times> nat" where
  "collapse_step (result, emptyCount) ln =
     (if trimmed ln = []
      then (if emptyCount + 1 \<le> 2 then result @ QS ''\<newline>'' else result, emptyCount + 1)
      else (result @ ln @ QS ''\<newline>'', 0))"

definition tags_stripped :: "qstring \<Rightarrow> qstring" where
  "tags_stripped html = fst (foldl strip_step ([], False, []) html)"

definition lines_collapsed :: "qstring \<Rightarrow> qstring" where
  "lines_collapsed out = fst (foldl collapse_step ([], 0) (split_chr 0x0A out))"

definition htmlToPlain :: "qstring \<Rightarrow> qstring" where
  "htmlToPlain html = trimmed (lines_collapsed (tags_stripped html))"

text \<open>
  The text that \<^verbatim>\<open>HTMLSaver::save\<close> (main.cpp, lines 109 to 120) sends to its stream.
\<close>

definition HTMLSaver_text :: "qstring \<Rightarrow> qstring" where
  "HTMLSaver_text text =
     QS ''<html><body>\<newline>''
     @ concat (map (\<lambda>p. QS ''<p>'' @ toHtmlEscaped p @ QS ''</p>\<newline>'')
                 (split_skip_empty (QS ''\<newline>\<newline>'') text))
     @ QS ''\<newline></body></html>\<newline>''"

section \<open>The format factory\<close>

text \<open>
  The three factory classes as a datatype; \<^verbatim>\<open>factoryForExtension\<close> is the lambda of
  main.cpp, lines 232 to 237. It compares the string it is given as it is; its callers
  pass \<^verbatim>\<open>suffix().toLower()\<close>.
\<close>

datatype factory = TXTFactory | HTMLFactory | BINFactory

definition factoryForExtension :: "qstring \<Rightarrow> factory" where
  "factoryForExtension ext =
     (if ext = QS ''txt'' then TXTFactory
      else if ext = QS ''html'' \<or> ext = QS ''htm'' then HTMLFactory
      else if ext = QS ''bin'' then BINFactory
      else TXTFactory)"

section \<open>Observers\<close>

text \<open>
  \<^verbatim>\<open>Subject\<close> (main.cpp, lines 164 to 171). An observer is a pointer, modelled by
  its address, 0 being the null pointer. A notification calls a virtual method of each
  observer of the list in turn; the calls made are recorded as a list of events.
\<close>

type_synonym observer = nat

datatype event =
    ParagraphsDeleted observer int
  | AutoSaved observer qstring
  | SaveWarning

definition add :: "observer \<Rightarrow> observer list \<Rightarrow> observer list" where
  "add o' obs = (if o' \<noteq> 0 \<and> o' \<notin> set obs then obs @ [o'] else obs)"

definition remove :: "observer \<Rightarrow> observer list \<Rightarrow> observer list" where
  "remove o' obs = filter (\<lambda>x. x \<noteq> o') obs"

definition notifyDeleted :: "observer list \<Rightarrow> int \<Rightarrow> event list" where
  "notifyDeleted obs n = map (\<lambda>o'. ParagraphsDeleted o' n) obs"

definition notifySaved :: "observer list \<Rightarrow> qstring \<Rightarrow> event list" where
  "notifySaved obs p = map (\<lambda>o'. AutoSaved o' p) obs"

definition receiver :: "event \<Rightarrow> observer option" where
  "receiver e =
     (case e of ParagraphsDeleted o' n \<Rightarrow> Some o' | AutoSaved o' p \<Rightarrow> Some o' | SaveWarning \<Rightarrow> None)"

section \<open>Files\<close>

text \<open>
  The file system as far as the program sees it: the bytes stored under a path, and
  whether \<^verbatim>\<open>QFile::open\<close> succeeds on the path for reading and for writing. Opening
  for writing creates or truncates the file, and what is written then is its content.
  Opening for reading fails when the file does not exist or may not be read.
\<close>

type_synonym byte = "8 word"

record filesystem =
  content :: "qstring \<Rightarrow> byte list option"
  can_read :: "qstring \<Rightarrow> bool"
  can_write :: "qstring \<Rightarrow> bool"

definition write_file :: "filesystem \<Rightarrow> qstring \<Rightarrow> byte list \<Rightarrow> filesystem" where
  "write_file fs path bytes = fs\<lparr>content := (content fs)(path \<mapsto> bytes)\<rparr>"

definition read_file :: "filesystem \<Rightarrow> qstring \<Rightarrow> byte list option" where
  "read_file fs path = (if can_read fs path then content fs path else None)"

subsection \<open>UTF-8\<close>

text \<open>
  \<^verbatim>\<open>QString::toUtf8\<close> and \<^verbatim>\<open>QString::fromUtf8\<close> (Qt library). The encoder joins a
  high surrogate and the low surrogate behind it into one code point and writes a question
  mark for a surrogate that stands alone. The decoder skips a byte order mark EF BB BF at
  the start of the data, and replaces each byte that does not begin a well-formed
  sequence (overlong forms, encoded surrogates and values above U+10FFFF included) by
  U+FFFD.
\<close>

definition isHighSurrogate :: "qchar \<Rightarrow> bool" where
  "isHighSurrogate u \<longleftrightarrow> 0xD800 \<le> u \<and> u \<le> 0xDBFF"

definition isLowSurrogate :: "qchar \<Rightarrow> bool" where
  "isLowSurrogate u \<longleftrightarrow> 0xDC00 \<le> u \<and> u \<le> 0xDFFF"

definition utf8_encode :: "nat \<Rightarrow> byte list" where
  "utf8_encode u =
     (if u < 0x80 then [of_nat u]
      else if u < 0x800 then [of_nat (0xC0 + u div 64), of_nat (0x80 + u mod 64)]
      else if u < 0x10000 then
        [of_nat (0xE0 + u div 4096), of_nat (0x80 + u div 64 mod 64), of_nat (0x80 + u mod 64)]
      else
        [of_nat (0xF0 + u div 262144), of_nat (0x80 + u div 4096 mod 64),
         of_nat (0x80 + u div 64 mod 64), of_nat (0x80 + u mod 64)])"

fun toUtf8 :: "qstring \<Rightarrow> byte list" where
  "toUtf8 [] = []"
| "toUtf8 [u] =
     (if isHighSurrogate u \<or> isLowSurrogate u then [0x3F] else utf8_encode (unat u))"
| "toUtf8 (u # l # us) =
     (if isHighSurrogate u then
        (if isLowSurrogate l
         then utf8_encode (0x10000 + (unat u - 0xD800) * 1024 + (unat l - 0xDC00)) @ toUtf8 us
         else 0x3F # toUtf8 (l # us))
      else if isLowSurrogate u then 0x3F # toUtf8 (l # us)
      else utf8_encode (unat u) @ toUtf8 (l # us))"

definition isContinuation :: "byte \<Rightarrow> bool" where
  "isContinuation b \<longleftrightarrow> 0x80 \<le> b \<and> b \<le> 0xBF"

definition utf16_units :: "nat \<Rightarrow> qstring" where
  "utf16_units uc =
     (if uc < 0x10000 then [of_nat uc]
      else [of_nat (0xD800 + (uc - 0x10000) div 1024),
            of_nat (0xDC00 + (uc - 0x10000) mod 1024)])"

fun utf8_decode :: "byte list \<Rightarrow> qstring" where
  "utf8_decode [] = []"
| "utf8_decode (b # bs) =
     (if b < 0x80 then of_nat (unat b) # utf8_decode bs
      else if b < 0xC2 then 0xFFFD # utf8_decode bs
      else if b < 0xE0 then
        (case bs of
           c1 # r \<Rightarrow>
             if isContinuation c1
             then of_nat ((unat b - 0xC0) * 64 + (unat c1 - 0x80)) # utf8_decode r
             else 0xFFFD # utf8_decode bs
         | _ \<Rightarrow> 0xFFFD # utf8_decode bs)
      else if b < 0xF0 then
        (case bs of
           c1 # c2 # r \<Rightarrow>
             (let uc = (unat b - 0xE0) * 4096 + (unat c1 - 0x80) * 64 + (unat c2 - 0x80) in
              if isContinuation c1 \<and> isContinuation c2 \<and> 0x800 \<le> uc
                 \<and> \<not> (0xD800 \<le> uc \<and> uc \<le> 0xDFFF)
              then of_nat uc # utf8_decode r
              else 0xFFFD # utf8_decode bs)
         | _ \<Rightarrow> 0xFFFD # utf8_decode bs)
      else if b < 0xF5 then
        (case bs of
           c1 # c2 # c3 # r \<Rightarrow>
             (let uc = (unat b - 0xF0) * 262144 + (unat c1 - 0x80) * 4096
                       + (unat c2 - 0x80) * 64 + (unat c3 - 0x80) in
              if isContinuation c1 \<and> isContinuation c2 \<and> isContinuation c3
                 \<and> 0x10000 \<le> uc \<and> uc \<le> 0x10FFFF
              then utf16_units uc @ utf8_decode r
              else 0xFFFD # utf8_decode bs)
         | _ \<Rightarrow> 0xFFFD # utf8_decode bs)
      else 0xFFFD # utf8_decode bs)"

definition fromUtf8 :: "byte list \<Rightarrow> qstring" where
  "fromUtf8 bytes =
     utf8_decode (if take 3 bytes = [0xEF, 0xBB, 0xBF] then drop 3 bytes else bytes)"

subsection \<open>Text streams and text mode\<close>

text \<open>
  \<^verbatim>\<open>QTextStream\<close> on a file opened with \<^verbatim>\<open>QIODevice::Text\<close> (Qt library; the stream's
  default encoding UTF-8, a platform whose line end is the line feed). Writing encodes
  the text; on such a platform the text mode changes nothing on the way out. Reading
  decodes the bytes and, the device being in text mode, removes the carriage returns.
  \<^verbatim>\<open>QFile::readAll\<close> on a device in text mode removes the carriage return bytes.
  A stream that finds a UTF-16 or UTF-32 byte order mark switches to that encoding; this
  is not modelled, no UTF-8 data begins with such a mark.
\<close>

definition QTextStream_write :: "qstring \<Rightarrow> byte list" where
  "QTextStream_write text = toUtf8 text"

definition QTextStream_readAll :: "byte list \<Rightarrow> qstring" where
  "QTextStream_readAll bytes = filter (\<lambda>c. c \<noteq> 0x0D) (fromUtf8 bytes)"

definition text_mode_readAll :: "byte list \<Rightarrow> byte list" where
  "text_mode_readAll bytes = filter (\<lambda>b. b \<noteq> 0x0D) bytes"

subsection \<open>Loaders and savers\<close>

text \<open>
  The six \<^verbatim>\<open>load\<close> and \<^verbatim>\<open>save\<close> methods (main.cpp, lines 41 to 56, 99 to 120 and
  131 to 148). A loader returns the empty string when the file cannot be opened; a saver
  returns \<^verbatim>\<open>false\<close> and leaves the file system as it is when the file cannot be
  opened, and otherwise returns \<^verbatim>\<open>true\<close> with the file written.
\<close>

definition TXTLoader_load :: "filesystem \<Rightarrow> qstring \<Rightarrow> qstring" where
  "TXTLoader_load fs path =
     (case read_file fs path of None \<Rightarrow> [] | Some bytes \<Rightarrow> QTextStream_readAll bytes)"

definition TXTSaver_save :: "filesystem \<Rightarrow> qstring \<Rightarrow> qstring \<Rightarrow> bool \<times> filesystem" where
  "TXTSaver_save fs path text =
     (if \<not> can_write fs path then (False, fs)
      else (True, write_file fs path (QTextStream_write text)))"

definition HTMLLoader_load :: "filesystem \<Rightarrow> qstring \<Rightarrow> qstring" where
  "HTMLLoader_load fs path =
     (case read_file fs path of None \<Rightarrow> []
      | Some bytes \<Rightarrow> htmlToPlain (fromUtf8 (text_mode_readAll bytes)))"

definition HTMLSaver_save :: "filesystem \<Rightarrow> qstring \<Rightarrow> qstring \<Rightarrow> bool \<times> filesystem" where
  "HTMLSaver_save fs path text =
     (if \<not> can_write fs path then (False, fs)
      else (True, write_file fs path (QTextStream_write (HTMLSaver_text text))))"

definition BINLoader_load :: "filesystem \<Rightarrow> qstring \<Rightarrow> qstring" where
  "BINLoader_load fs path =
     (case read_file fs path of None \<Rightarrow> [] | Some bytes \<Rightarrow> fromUtf8 bytes)"

definition BINSaver_save :: "filesystem \<Rightarrow> qstring \<Rightarrow> qstring \<Rightarrow> bool \<times> filesystem" where
  "BINSaver_save fs path text =
     (if \<not> can_write fs path then (False, fs)
      else (True, write_file fs path (toUtf8 text)))"

fun createLoader :: "factory \<Rightarrow> filesystem \<Rightarrow> qstring \<Rightarrow> qstring" where
  "createLoader TXTFactory = TXTLoader_load"
| "createLoader HTMLFactory = HTMLLoader_load"
| "createLoader BINFactory = BINLoader_load"

fun createSaver :: "factory \<Rightarrow> filesystem \<Rightarrow> qstring \<Rightarrow> qstring \<Rightarrow> bool \<times> filesystem" where
  "createSaver TXTFactory = TXTSaver_save"
| "createSaver HTMLFactory = HTMLSaver_save"
| "createSaver BINFactory = BINSaver_save"

section \<open>The editor session\<close>

text \<open>
  The state that the handlers of \<^verbatim>\<open>main\<close> capture by reference: the text of the
  widget, \<^verbatim>\<open>currentPath\<close>, \<^verbatim>\<open>currentFactory\<close> (a null pointer until a file is
  named), \<^verbatim>\<open>lastParagraphCount\<close> and the subject's observers; with it the file system
  and the list of events shown so far.
\<close>

record editor =
  docText :: qstring
  currentPath :: qstring
  currentFactory :: "factory option"
  lastParagraphCount :: int
  subject :: "observer list"
  disk :: filesystem
  events :: "event list"

text \<open>
  \<^verbatim>\<open>QFileInfo::suffix\<close> (Qt library): what follows the last dot of the file name, the
  file name being what follows the last slash of the path; empty when the file name has
  no dot.
\<close>

definition suffix :: "qstring \<Rightarrow> qstring" where
  "suffix path =
     (let name = rev (takeWhile (\<lambda>c. c \<noteq> 0x2F) (rev path)) in
        if 0x2E \<in> set name then rev (takeWhile (\<lambda>c. c \<noteq> 0x2E) (rev name)) else [])"

text \<open>
  The statement \<^verbatim>\<open>if (!currentFactory) currentFactory = factoryForExtension(...)\<close> of
  both handlers: the factory in use afterwards.
\<close>

definition activeFactory :: "editor \<Rightarrow> factory" where
  "activeFactory st =
     (case currentFactory st of
        None \<Rightarrow> factoryForExtension (toLower (suffix (currentPath st)))
      | Some f \<Rightarrow> f)"

text \<open>
  The handler of \<^verbatim>\<open>textChanged\<close> (main.cpp, lines 269 to 284). The value that
  \<^verbatim>\<open>save\<close> returns is not looked at.
\<close>

definition textChanged :: "editor \<Rightarrow> editor" where
  "textChanged st =
     (let text = docText st;
          curCount = countParagraphs text;
          st1 =
            (if curCount < lastParagraphCount st then
               st\<lparr>events := events st
                      @ notifyDeleted (subject st) (lastParagraphCount st - curCount)\<rparr>
             else if curCount > lastParagraphCount st then
               (if currentPath st \<noteq> [] then
                  (let f = activeFactory st;
                       r = createSaver f (disk st) (currentPath st) text
                   in st\<lparr>currentFactory := Some f, disk := snd r,
                          events := events st @ notifySaved (subject st) (currentPath st)\<rparr>)
                else st)
             else st)
      in st1\<lparr>lastParagraphCount := curCount\<rparr>)"

text \<open>
  The handler of the Save action (main.cpp, lines 252 to 265). \<open>fname\<close> is what the
  save dialog returns, asked only while no path is set; the empty string is a cancelled
  dialog.
\<close>

definition actSave :: "qstring \<Rightarrow> editor \<Rightarrow> editor" where
  "actSave fname st =
     (if currentPath st = [] \<and> fname = [] then st
      else
        (let st1 =
               (if currentPath st = [] then
                  st\<lparr>currentPath := fname,
                     currentFactory := Some (factoryForExtension (toLower (suffix fname)))\<rparr>
                else st);
             f = activeFactory st1;
             r = createSaver f (disk st1) (currentPath st1) (docText st1)
         in if \<not> fst r
            then st1\<lparr>currentFactory := Some f, disk := snd r,
                    events := events st1 @ [SaveWarning]\<rparr>
            else st1\<lparr>currentFactory := Some f, disk := snd r,
                    events := events st1 @ notifySaved (subject st1) (currentPath st1)\<rparr>))"

section \<open>Definitions for the statements\<close>

text \<open>
  The specification's wording, for comparison with the code: a line is blank iff it is
  empty after trimming; a paragraph is a maximal run of consecutive non-blank lines. A
  maximal run is identified by the index of its first line: a non-blank line that is the
  first line of the text or follows a blank line.
\<close>

definition blank :: "qstring \<Rightarrow> bool" where
  "blank ln \<longleftrightarrow> trimmed ln = []"

definition run_starts :: "qstring list \<Rightarrow> nat list" where
  "run_starts lns =
     [i \<leftarrow> [0..<length lns]. \<not> blank (lns ! i) \<and> (i = 0 \<or> blank (lns ! (i - 1)))]"

definition paragraph_runs :: "qstring list \<Rightarrow> nat" where
  "paragraph_runs lns = length (run_starts lns)"

text \<open>
  The number of runs by recursion over the blank flags of the lines; \<open>inrun\<close> says that
  the previous line was not blank.
\<close>

fun nruns :: "bool \<Rightarrow> bool list \<Rightarrow> nat" where
  "nruns inrun [] = 0"
| "nruns inrun (b # bs) =
     (if b then nruns False bs else (if inrun then 0 else 1) + nruns True bs)"

definition starts_from :: "bool \<Rightarrow> bool list \<Rightarrow> nat list" where
  "starts_from prev bs =
     [i \<leftarrow> [0..<length bs]. \<not> bs ! i \<and> (if i = 0 then prev else bs ! (i - 1))]"

text \<open>
  Example sessions: an empty disk on which every path can be read and either every path
  or no path can be written, and an editor on it with one observer registered (as
  \<^verbatim>\<open>main\<close> registers its message observer) and no factory chosen yet.
\<close>

definition demo_disk :: "bool \<Rightarrow> filesystem" where
  "demo_disk w = \<lparr>content = (\<lambda>p. None), can_read = (\<lambda>p. True), can_write = (\<lambda>p. w)\<rparr>"

definition demo_editor :: "qstring \<Rightarrow> qstring \<Rightarrow> int \<Rightarrow> bool \<Rightarrow> editor" where
  "demo_editor text path n w =
     \<lparr>docText = text, currentPath = path, currentFactory = None, lastParagraphCount = n,
      subject = [1], disk = demo_disk w, events = []\<rparr>"

text \<open>
  The paragraph count read off the characters. \<open>scan_step\<close> keeps two flags while the
  text is read: whether the line before the current one was not blank, and whether the
  current line has shown a character that is not white space. \<open>starts\<close> counts the
  characters that begin a paragraph: the first such character of a line that follows a
  blank line or begins the text.
\<close>

definition scan_step :: "bool \<times> bool \<Rightarrow> qchar \<Rightarrow> bool \<times> bool" where
  "scan_step st c =
     (case st of (r, l) \<Rightarrow> if c = 0x0A then (l, False) else if isSpace c then (r, l) else (r, True))"

fun starts :: "bool \<times> bool \<Rightarrow> qstring \<Rightarrow> nat" where
  "starts st [] = 0"
| "starts st (c # cs) =
     (if \<not> isSpace c \<and> st = (False, False) then 1 else 0) + starts (scan_step st c) cs"

text \<open>
  The loops of \<^verbatim>\<open>htmlToPlain\<close> as recursive functions: \<open>collapse_out k lns\<close> is what the
  second loop appends to \<^verbatim>\<open>result\<close> for the lines \<open>lns\<close> when \<^verbatim>\<open>emptyCount\<close> is \<open>k\<close>,
  and \<open>strip inTag tag s\<close> what the first loop appends to \<^verbatim>\<open>out\<close> for the characters
  \<open>s\<close> from the state \<^verbatim>\<open>(inTag, tag)\<close>.
\<close>

fun collapse_out :: "nat \<Rightarrow> qstring list \<Rightarrow> qstring" where
  "collapse_out k [] = []"
| "collapse_out k (ln # lns) =
     (if trimmed ln = []
      then (if k + 1 \<le> 2 then [0x0A] else []) @ collapse_out (k + 1) lns
      else ln @ [0x0A] @ collapse_out 0 lns)"

fun strip :: "bool \<Rightarrow> qstring \<Rightarrow> qstring \<Rightarrow> qstring" where
  "strip inTag tag [] = []"
| "strip inTag tag (c # cs) =
     (if c = 0x3C then strip True [] cs
      else if inTag then
        (if c = 0x3E then tag_break tag @ strip False tag cs else strip True (tag @ [c]) cs)
      else c # strip False tag cs)"

text \<open>
  Runs of blank lines. \<open>runs_ok k flags\<close> says that the blank flags of a list of lines,
  read after \<open>k\<close> blank lines, never show a third blank line in a row; \<open>blank_ok\<close> reads
  the same off the characters, \<open>l\<close> telling whether the current line has shown a character
  that is not white space.
\<close>

fun blank_ok :: "nat \<Rightarrow> bool \<Rightarrow> qstring \<Rightarrow> bool" where
  "blank_ok k l [] = (l \<or> k < 2)"
| "blank_ok k l (c # cs) =
     (if c = 0x0A then (if l then blank_ok 0 False cs else k < 2 \<and> blank_ok (k + 1) False cs)
      else blank_ok k (l \<or> \<not> isSpace c) cs)"

fun runs_ok :: "nat \<Rightarrow> bool list \<Rightarrow> bool" where
  "runs_ok k [] = True"
| "runs_ok k (b # bs) = (if b then k < 2 \<and> runs_ok (k + 1) bs else runs_ok 0 bs)"

text \<open>
  Well-formed UTF-16: every high surrogate is followed by a low surrogate, and no low
  surrogate stands without a high surrogate before it.
\<close>

fun wellFormed :: "qstring \<Rightarrow> bool" where
  "wellFormed [] = True"
| "wellFormed [u] = (\<not> isHighSurrogate u \<and> \<not> isLowSurrogate u)"
| "wellFormed (u # l # us) =
     (if isHighSurrogate u then isLowSurrogate l \<and> wellFormed us
      else \<not> isLowSurrogate u \<and> wellFormed (l # us))"

text \<open>
  Letter case. Two code units are the same letter when they are equal or one is an ASCII
  capital and the other the small letter 32 places above it; two strings are case variants
  of each other when they have the same length and the same letters place by place.
\<close>

definition same_letter :: "qchar \<Rightarrow> qchar \<Rightarrow> bool" where
  "same_letter c d \<longleftrightarrow>
     c = d \<or> (0x41 \<le> c \<and> c \<le> 0x5A \<and> d = c + 0x20) \<or> (0x41 \<le> d \<and> d \<le> 0x5A \<and> c = d + 0x20)"

definition case_variant :: "qstring \<Rightarrow> qstring \<Rightarrow> bool" where
  "case_variant e e' \<longleftrightarrow> list_all2 same_letter e e'"

text \<open>
  Occurrences of a string in a text: \<open>occurs sep s\<close> says that \<open>sep\<close> is found somewhere in
  \<open>s\<close>, and \<open>count_occurrences sub s\<close> counts the places of \<open>s\<close> where \<open>sub\<close> begins.
\<close>

fun occurs :: "qstring \<Rightarrow> qstring \<Rightarrow> bool" where
  "occurs sep [] = (sep = [])"
| "occurs sep (c # cs) = (startsWith (c # cs) sep \<or> occurs sep cs)"

fun count_occurrences :: "qstring \<Rightarrow> qstring \<Rightarrow> nat" where
  "count_occurrences sub [] = 0"
| "count_occurrences sub (c # cs) =
     (if startsWith (c # cs) sub then 1 else 0) + count_occurrences sub cs"

text \<open>
  The specification's wording on blank lines, for comparison with the second loop of
  \<^verbatim>\<open>htmlToPlain\<close>: a run of blank lines is cut down to two. A line is dropped when it is
  blank and the two lines before it are blank; \<open>kept_lines\<close> are the other lines in their
  order, a blank one among them emptied, and \<open>join_lines\<close> writes each line with a newline
  behind it.
\<close>

definition dropped :: "qstring list \<Rightarrow> nat \<Rightarrow> bool" where
  "dropped lns i \<longleftrightarrow> blank (lns ! i) \<and> 2 \<le> i \<and> blank (lns ! (i - 1)) \<and> blank (lns ! (i - 2))"

definition kept_lines :: "qstring list \<Rightarrow> qstring list" where
  "kept_lines lns =
     map (\<lambda>i. if blank (lns ! i) then [] else lns ! i)
       (filter (\<lambda>i. \<not> dropped lns i) [0..<length lns])"

definition join_lines :: "qstring list \<Rightarrow> qstring" where
  "join_lines lns = concat (map (\<lambda>l. l @ [0x0A]) lns)"

text \<open>
  The same with the blank flags \<open>b1\<close> and \<open>b2\<close> of the two lines before the first line of
  the list.
\<close>

definition dropped_from :: "bool \<Rightarrow> bool \<Rightarrow> qstring list \<Rightarrow> nat \<Rightarrow> bool" where
  "dropped_from b1 b2 lns i \<longleftrightarrow>
     blank (lns ! i) \<and> (if i = 0 then b1 else blank (lns ! (i - 1)))
     \<and> (if i = 0 then b2 else if i = 1 then b1 else blank (lns ! (i - 2)))"

definition kept_from :: "bool \<Rightarrow> bool \<Rightarrow> qstring list \<Rightarrow> qstring list" where
  "kept_from b1 b2 lns =
     map (\<lambda>i. if blank (lns ! i) then [] else lns ! i)
       (filter (\<lambda>i. \<not> dropped_from b1 b2 lns i) [0..<length lns])"

section \<open>Properties of trimming and splitting\<close>

lemma trimmed_Nil_iff: "trimmed s = [] \<longleftrightarrow> (\<forall>c \<in> set s. isSpace c)"
proof
  assume "trimmed s = []"
  then have a: "\<forall>x \<in> set (dropWhile isSpace s). isSpace x"
    by (simp add: trimmed_def dropWhile_eq_Nil_conv)
  have "dropWhile isSpace s = []"
  proof (rule ccontr)
    assume n: "dropWhile isSpace s \<noteq> []"
    then have "\<not> isSpace (hd (dropWhile isSpace s))" by (rule hd_dropWhile)
    moreover have "hd (dropWhile isSpace s) \<in> set (dropWhile isSpace s)" using n by simp
    ultimately show False using a by blast
  qed
  then show "\<forall>c \<in> set s. isSpace c" by (simp add: dropWhile_eq_Nil_conv)
next
  assume "\<forall>c \<in> set s. isSpace c"
  then have d: "dropWhile isSpace s = []" by (simp add: dropWhile_eq_Nil_conv)
  show "trimmed s = []" unfolding trimmed_def d by simp
qed

lemma blank_iff: "blank ln \<longleftrightarrow> (\<forall>c \<in> set ln. isSpace c)"
  by (simp add: blank_def trimmed_Nil_iff)

lemma blank_Nil: "blank []"
  by (simp add: blank_iff)

section \<open>The paragraph counter counts maximal runs\<close>

lemma fold_para_step:
  "(case foldl para_step (paras, cur) lns of
      (ps, c) \<Rightarrow> length (if c \<noteq> [] then ps @ [c] else ps))
   = length paras + (if cur \<noteq> [] then 1 else 0) + nruns (cur \<noteq> []) (map blank lns)"
proof (induction lns arbitrary: paras cur)
  case Nil
  show ?case by simp
next
  case (Cons ln lns)
  show ?case
  proof (cases "blank ln")
    case True
    then show ?thesis
      using Cons.IH [of "paras @ [cur]" "[]"] Cons.IH [of paras "[]"]
      by (cases "cur = []") (simp_all add: para_step_def blank_def)
  next
    case False
    then have "ln \<noteq> []" using blank_Nil by auto
    then show ?thesis
      using False Cons.IH [of paras "(if cur \<noteq> [] then cur @ [0x0A] else cur) @ ln"]
      by (simp add: para_step_def blank_def)
  qed
qed

lemma countParagraphs_nruns:
  "countParagraphs text = int (nruns False (map blank (split_chr 0x0A text)))"
proof -
  obtain ps c where e: "foldl para_step ([], []) (split_chr 0x0A text) = (ps, c)"
    by (cases "foldl para_step ([], []) (split_chr 0x0A text)")
  show ?thesis
    using fold_para_step [of "[]" "[]" "split_chr 0x0A text"]
    by (simp add: countParagraphs_def e)
qed

lemma starts_from_Cons:
  "length (starts_from prev (b # bs)) = (if \<not> b \<and> prev then 1 else 0) + length (starts_from b bs)"
proof -
  have "[0..<length (b # bs)] = 0 # map Suc [0..<length bs]"
    by (simp add: upt_conv_Cons map_Suc_upt del: upt_Suc)
  then have "starts_from prev (b # bs) =
      (if \<not> b \<and> prev then [0] else []) @ map Suc (starts_from b bs)"
    unfolding starts_from_def
    by (cases bs) (auto simp: filter_map comp_def nth_Cons' simp del: upt_Suc intro!: filter_cong)
  then show ?thesis by simp
qed

lemma nruns_starts: "nruns (\<not> prev) bs = length (starts_from prev bs)"
proof (induction bs arbitrary: prev)
  case Nil
  show ?case by (simp add: starts_from_def)
next
  case (Cons b bs)
  show ?case
    using Cons.IH [of True] Cons.IH [of False]
    by (cases b; cases prev; simp add: starts_from_Cons)
qed

lemma run_starts_eq: "run_starts lns = starts_from True (map blank lns)"
  unfolding run_starts_def starts_from_def
  by (auto intro!: filter_cong)

lemma nruns_paragraph_runs: "nruns False (map blank lns) = paragraph_runs lns"
  using nruns_starts [of True "map blank lns"]
  by (simp add: paragraph_runs_def run_starts_eq)

lemma nruns_all_blank: "\<forall>b \<in> set bs. b \<Longrightarrow> nruns r bs = 0"
  by (induction bs arbitrary: r) auto

text \<open>
  Claim C2. \<^verbatim>\<open>countParagraphs\<close> is a function of the text alone and returns the number
  of maximal runs of consecutive non-blank lines of the text, a line being blank iff it is
  empty after trimming. It returns 0 for the empty string and for every text whose lines
  are all blank, 2 for "a\n\nb" and 2 for "a\nb\n\n\n\nc".
\<close>

theorem countParagraphs_counts_runs:
  "countParagraphs text = int (paragraph_runs (split_chr 0x0A text))
   \<and> countParagraphs [] = 0
   \<and> ((\<forall>ln \<in> set (split_chr 0x0A text). blank ln) \<longrightarrow> countParagraphs text = 0)
   \<and> countParagraphs (QS ''a\<newline>\<newline>b'') = 2
   \<and> countParagraphs (QS ''a\<newline>b\<newline>\<newline>\<newline>\<newline>c'') = 2"
proof -
  have 1: "countParagraphs text = int (paragraph_runs (split_chr 0x0A text))"
    by (simp add: countParagraphs_nruns nruns_paragraph_runs)
  have 2: "countParagraphs [] = 0"
    by (simp add: countParagraphs_def para_step_def trimmed_def)
  have 3: "(\<forall>ln \<in> set (split_chr 0x0A text). blank ln) \<longrightarrow> countParagraphs text = 0"
    by (simp add: countParagraphs_nruns nruns_all_blank)
  have 4: "countParagraphs (QS ''a\<newline>\<newline>b'') = 2"
    by (simp add: countParagraphs_def QS_def para_step_def trimmed_def isSpace_def)
  have 5: "countParagraphs (QS ''a\<newline>b\<newline>\<newline>\<newline>\<newline>c'') = 2"
    by (simp add: countParagraphs_def QS_def para_step_def trimmed_def isSpace_def)
  from 1 2 3 4 5 show ?thesis by blast
qed

theorem countParagraphs_counts_runs_witness:
  "list_all blank (split_chr 0x0A (QS '' \<newline>  ''))
   \<and> countParagraphs (QS '' \<newline>  '') = 0"
proof -
  have h: "\<forall>ln \<in> set (split_chr 0x0A (QS '' \<newline>  '')). blank ln"
    by (simp add: QS_def blank_def trimmed_def isSpace_def)
  from countParagraphs_counts_runs [of "QS '' \<newline>  ''"]
  have "(\<forall>ln \<in> set (split_chr 0x0A (QS '' \<newline>  '')). blank ln)
        \<longrightarrow> countParagraphs (QS '' \<newline>  '') = 0"
    by blast
  with h show ?thesis by (simp only: list_all_iff)
qed

section \<open>The format factory: claim C3\<close>

lemma upper_shift:
  assumes "0x41 \<le> c" "c \<le> (0x5A :: qchar)"
  shows "\<not> (c + 0x20 \<le> 0x5A)"
proof -
  have b: "65 \<le> unat c" "unat c \<le> 90" using assms by (simp_all add: word_le_nat_alt)
  have "unat (c + 0x20) = (unat c + 32) mod 65536" by (simp add: unat_word_ariths)
  also have "\<dots> = unat c + 32" using b by simp
  finally show ?thesis using b by (simp add: word_le_nat_alt)
qed

lemma same_letter_lower:
  "same_letter c d \<longleftrightarrow>
     (if 0x41 \<le> c \<and> c \<le> 0x5A then c + 0x20 else c)
       = (if 0x41 \<le> d \<and> d \<le> 0x5A then d + 0x20 else d)"
  using upper_shift [of c] upper_shift [of d]
  by (auto simp: same_letter_def)

lemma case_variant_toLower: "case_variant e e' \<longleftrightarrow> toLower e = toLower e'"
  unfolding case_variant_def toLower_def
  by (induction e e' rule: list_induct2') (simp_all add: same_letter_lower)


text \<open>
  Claim C3. Every call of \<^verbatim>\<open>factoryForExtension\<close> in \<^verbatim>\<open>main\<close> passes a lowered suffix
  (main.cpp, lines 243 to 244, 258, 260 and 277), so the factory of an extension \<open>e\<close> is
  \<^verbatim>\<open>factoryForExtension(e.toLower())\<close>. It is a total function of \<open>e\<close> and does not
  depend on the case of the letters: case variants get the same strategy. Every spelling
  of "txt" gives the plain strategy, every spelling of "html" or "htm" the markup
  strategy, every spelling of "bin" the raw strategy, and every other string, the empty
  one included, the plain strategy. "TXT", "HTML" and "Bin" give what "txt", "html" and
  "bin" give.
\<close>

theorem factory_case_insensitive:
  "(case_variant e e' \<longrightarrow>
      factoryForExtension (toLower e) = factoryForExtension (toLower e'))
   \<and> (case_variant e (QS ''txt'') \<longrightarrow> factoryForExtension (toLower e) = TXTFactory)
   \<and> (case_variant e (QS ''html'') \<or> case_variant e (QS ''htm'') \<longrightarrow>
        factoryForExtension (toLower e) = HTMLFactory)
   \<and> (case_variant e (QS ''bin'') \<longrightarrow> factoryForExtension (toLower e) = BINFactory)
   \<and> (\<not> case_variant e (QS ''html'') \<and> \<not> case_variant e (QS ''htm'')
        \<and> \<not> case_variant e (QS ''bin'') \<longrightarrow> factoryForExtension (toLower e) = TXTFactory)
   \<and> factoryForExtension (toLower []) = TXTFactory
   \<and> factoryForExtension (toLower (QS ''TXT'')) = factoryForExtension (toLower (QS ''txt''))
   \<and> factoryForExtension (toLower (QS ''HTML'')) = factoryForExtension (toLower (QS ''html''))
   \<and> factoryForExtension (toLower (QS ''Bin'')) = factoryForExtension (toLower (QS ''bin''))
   \<and> factoryForExtension (toLower (QS ''HTML'')) = HTMLFactory
   \<and> factoryForExtension (toLower (QS ''Bin'')) = BINFactory"
proof -
  have low: "toLower (QS ''txt'') = QS ''txt''" "toLower (QS ''html'') = QS ''html''"
    "toLower (QS ''htm'') = QS ''htm''" "toLower (QS ''bin'') = QS ''bin''"
    by (simp_all add: toLower_def QS_def)
  have ne: "QS ''txt'' \<noteq> QS ''html''" "QS ''txt'' \<noteq> QS ''htm''" "QS ''txt'' \<noteq> QS ''bin''"
    "QS ''bin'' \<noteq> QS ''html''" "QS ''bin'' \<noteq> QS ''htm''"
    by (simp_all add: QS_def)
  have 1: "case_variant e e' \<longrightarrow>
      factoryForExtension (toLower e) = factoryForExtension (toLower e')"
    by (simp add: case_variant_toLower)
  have 2: "case_variant e (QS ''txt'') \<longrightarrow> factoryForExtension (toLower e) = TXTFactory"
    by (simp add: case_variant_toLower low factoryForExtension_def)
  have 3: "case_variant e (QS ''html'') \<or> case_variant e (QS ''htm'') \<longrightarrow>
        factoryForExtension (toLower e) = HTMLFactory"
    using ne by (auto simp: case_variant_toLower low factoryForExtension_def)
  have 4: "case_variant e (QS ''bin'') \<longrightarrow> factoryForExtension (toLower e) = BINFactory"
    using ne by (auto simp: case_variant_toLower low factoryForExtension_def)
  have 5: "\<not> case_variant e (QS ''html'') \<and> \<not> case_variant e (QS ''htm'')
        \<and> \<not> case_variant e (QS ''bin'') \<longrightarrow> factoryForExtension (toLower e) = TXTFactory"
    by (simp add: case_variant_toLower low factoryForExtension_def)
  have 6: "factoryForExtension (toLower []) = TXTFactory
   \<and> factoryForExtension (toLower (QS ''TXT'')) = factoryForExtension (toLower (QS ''txt''))
   \<and> factoryForExtension (toLower (QS ''HTML'')) = factoryForExtension (toLower (QS ''html''))
   \<and> factoryForExtension (toLower (QS ''Bin'')) = factoryForExtension (toLower (QS ''bin''))
   \<and> factoryForExtension (toLower (QS ''HTML'')) = HTMLFactory
   \<and> factoryForExtension (toLower (QS ''Bin'')) = BINFactory"
    by (simp add: factoryForExtension_def QS_def toLower_def)
  from 1 2 3 4 5 6 show ?thesis by blast
qed

theorem factory_case_insensitive_witness:
  "case_variant (QS ''HtMl'') (QS ''hTmL'')
   \<and> factoryForExtension (toLower (QS ''HtMl'')) = factoryForExtension (toLower (QS ''hTmL''))
   \<and> case_variant (QS ''HtMl'') (QS ''html'')
   \<and> factoryForExtension (toLower (QS ''HtMl'')) = HTMLFactory
   \<and> case_variant (QS ''TxT'') (QS ''txt'')
   \<and> factoryForExtension (toLower (QS ''TxT'')) = TXTFactory
   \<and> case_variant (QS ''BIN'') (QS ''bin'')
   \<and> factoryForExtension (toLower (QS ''BIN'')) = BINFactory
   \<and> factoryForExtension (toLower (QS ''Doc'')) = TXTFactory"
proof -
  have v1: "case_variant (QS ''HtMl'') (QS ''hTmL'')"
    and v2: "case_variant (QS ''HtMl'') (QS ''html'')"
    and v3: "case_variant (QS ''TxT'') (QS ''txt'')"
    and v4: "case_variant (QS ''BIN'') (QS ''bin'')"
    and v5: "\<not> case_variant (QS ''Doc'') (QS ''html'') \<and> \<not> case_variant (QS ''Doc'') (QS ''htm'')
        \<and> \<not> case_variant (QS ''Doc'') (QS ''bin'')"
    by (simp_all add: case_variant_def same_letter_def QS_def)
  have a: "factoryForExtension (toLower (QS ''HtMl'')) = factoryForExtension (toLower (QS ''hTmL''))"
    using factory_case_insensitive [of "QS ''HtMl''" "QS ''hTmL''"] v1 by blast
  have b: "factoryForExtension (toLower (QS ''HtMl'')) = HTMLFactory"
    using factory_case_insensitive [of "QS ''HtMl''" "[]"] v2 by blast
  have c: "factoryForExtension (toLower (QS ''TxT'')) = TXTFactory"
    using factory_case_insensitive [of "QS ''TxT''" "[]"] v3 by blast
  have d: "factoryForExtension (toLower (QS ''BIN'')) = BINFactory"
    using factory_case_insensitive [of "QS ''BIN''" "[]"] v4 by blast
  have e: "factoryForExtension (toLower (QS ''Doc'')) = TXTFactory"
    using factory_case_insensitive [of "QS ''Doc''" "[]"] v5 by blast
  from v1 v2 v3 v4 a b c d e show ?thesis by blast
qed

section \<open>Observers: claim C8\<close>

lemma distinct_add: "distinct obs \<Longrightarrow> distinct (add x obs)"
  by (simp add: add_def)

lemma filter_receiver:
  "distinct obs \<Longrightarrow> x \<in> set obs \<Longrightarrow>
   filter (\<lambda>e. receiver e = Some x) (notifyDeleted obs n) = [ParagraphsDeleted x n]"
proof (induction obs)
  case Nil
  then show ?case by simp
next
  case (Cons a obs)
  have none: "y \<notin> set ys \<Longrightarrow> filter (\<lambda>e. receiver e = Some y) (notifyDeleted ys n) = []" for y ys
    by (induction ys) (auto simp: notifyDeleted_def receiver_def)
  show ?case
  proof (cases "x = a")
    case True
    then have "x \<notin> set obs" using Cons.prems by simp
    then show ?thesis using True none [of x obs]
      by (simp add: notifyDeleted_def receiver_def)
  next
    case False
    then show ?thesis using Cons
      by (simp add: notifyDeleted_def receiver_def)
  qed
qed

text \<open>
  Claim C8. Adding an observer that is already registered leaves the list unchanged; a
  new non-null observer is appended at the end, so the list is in registration order and
  stays free of duplicates. \<^verbatim>\<open>notifyDeleted(n)\<close> calls the observers of the list in list
  order, each with \<open>n\<close>, and each registered observer receives exactly one call. With
  the subscribers A then B, \<^verbatim>\<open>notifyDeleted(3)\<close> calls A with 3, then B with 3.
\<close>

theorem subject_notifies_in_order:
  "(x \<in> set obs \<longrightarrow> add x obs = obs)
   \<and> (x \<noteq> 0 \<and> x \<notin> set obs \<longrightarrow> add x obs = obs @ [x])
   \<and> (distinct obs \<longrightarrow> distinct (add x obs))
   \<and> notifyDeleted obs n = map (\<lambda>y. ParagraphsDeleted y n) obs
   \<and> (distinct obs \<and> x \<in> set obs \<longrightarrow>
        filter (\<lambda>e. receiver e = Some x) (notifyDeleted obs n) = [ParagraphsDeleted x n])
   \<and> (a \<noteq> 0 \<and> b \<noteq> 0 \<and> a \<noteq> b \<longrightarrow>
        notifyDeleted (add b (add a [])) 3 = [ParagraphsDeleted a 3, ParagraphsDeleted b 3])"
proof -
  have 1: "x \<in> set obs \<longrightarrow> add x obs = obs" by (simp add: add_def)
  have 2: "x \<noteq> 0 \<and> x \<notin> set obs \<longrightarrow> add x obs = obs @ [x]" by (simp add: add_def)
  have 3: "distinct obs \<longrightarrow> distinct (add x obs)" by (simp add: distinct_add)
  have 4: "notifyDeleted obs n = map (\<lambda>y. ParagraphsDeleted y n) obs"
    by (simp add: notifyDeleted_def)
  have 5: "distinct obs \<and> x \<in> set obs \<longrightarrow>
        filter (\<lambda>e. receiver e = Some x) (notifyDeleted obs n) = [ParagraphsDeleted x n]"
    by (simp add: filter_receiver)
  have 6: "a \<noteq> 0 \<and> b \<noteq> 0 \<and> a \<noteq> b \<longrightarrow>
        notifyDeleted (add b (add a [])) 3 = [ParagraphsDeleted a 3, ParagraphsDeleted b 3]"
    by (simp add: add_def notifyDeleted_def)
  from 1 2 3 4 5 6 show ?thesis by blast
qed

theorem subject_notifies_in_order_witness:
  "add 1 [1, 2] = [1, 2]
   \<and> add 3 [1, 2] = [1, 2, 3]
   \<and> distinct (add 3 [1, 2])
   \<and> filter (\<lambda>e. receiver e = Some 2) (notifyDeleted [1, 2] 3) = [ParagraphsDeleted 2 3]
   \<and> notifyDeleted (add 2 (add 1 [])) 3 = [ParagraphsDeleted 1 3, ParagraphsDeleted 2 3]"
proof -
  have h1: "(1::nat) \<in> set [1, 2]" by simp
  have h2: "(3::nat) \<noteq> 0 \<and> 3 \<notin> set [1, 2::nat]" by simp
  have h3: "distinct [1, 2::nat]" by simp
  have h4: "distinct [1, 2::nat] \<and> (2::nat) \<in> set [1, 2]" by simp
  have h5: "(1::nat) \<noteq> 0 \<and> (2::nat) \<noteq> 0 \<and> (1::nat) \<noteq> 2" by simp
  have a: "add 1 [1, 2] = [1, 2]"
    using subject_notifies_in_order [of 1 "[1, 2]" 3 1 2] h1 by blast
  have b: "add 3 [1, 2] = [1, 2, 3]"
    using subject_notifies_in_order [of 3 "[1, 2]" 3 1 2] h2 by simp
  have c: "distinct (add 3 [1, 2])"
    using subject_notifies_in_order [of 3 "[1, 2]" 3 1 2] h3 by blast
  have d: "filter (\<lambda>e. receiver e = Some 2) (notifyDeleted [1, 2] 3) = [ParagraphsDeleted 2 3]"
    using subject_notifies_in_order [of 2 "[1, 2]" 3 1 2] h4 by blast
  have e: "notifyDeleted (add 2 (add 1 [])) 3 = [ParagraphsDeleted 1 3, ParagraphsDeleted 2 3]"
    using subject_notifies_in_order [of 2 "[1, 2]" 3 1 2] h5 by blast
  from a b c d e show ?thesis by blast
qed

section \<open>The text-changed handler: claim C1\<close>

lemma createSaver_writable:
  "can_write fs path \<Longrightarrow>
   createSaver f fs path t =
     (True, write_file fs path
        (case f of TXTFactory \<Rightarrow> QTextStream_write t
         | HTMLFactory \<Rightarrow> QTextStream_write (HTMLSaver_text t)
         | BINFactory \<Rightarrow> toUtf8 t))"
  by (cases f) (simp_all add: TXTSaver_save_def HTMLSaver_save_def BINSaver_save_def)

lemma createSaver_unwritable:
  "\<not> can_write fs path \<Longrightarrow> createSaver f fs path t = (False, fs)"
  by (cases f) (simp_all add: TXTSaver_save_def HTMLSaver_save_def BINSaver_save_def)

lemma cp_a: "countParagraphs (QS ''a'') = 1"
  by (simp add: countParagraphs_def QS_def para_step_def trimmed_def isSpace_def)

lemma cp_ab: "countParagraphs (QS ''a\<newline>\<newline>b'') = 2"
  by (simp add: countParagraphs_def QS_def para_step_def trimmed_def isSpace_def)

lemma demo_fields:
  "docText (demo_editor t p n w) = t" "currentPath (demo_editor t p n w) = p"
  "lastParagraphCount (demo_editor t p n w) = n" "subject (demo_editor t p n w) = [1]"
  "events (demo_editor t p n w) = []" "disk (demo_editor t p n w) = demo_disk w"
  "currentFactory (demo_editor t p n w) = None"
  by (simp_all add: demo_editor_def)

lemma demo_path: "QS ''/d/f.txt'' \<noteq> []"
  by (simp add: QS_def)

lemma demo_factory: "activeFactory (demo_editor t (QS ''/d/f.txt'') n w) = TXTFactory"
  by (simp add: activeFactory_def demo_fields suffix_def QS_def toLower_def
      factoryForExtension_def)

lemma toUtf8_a: "toUtf8 (QS ''a'') = [0x61]"
  by (simp add: QS_def isHighSurrogate_def isLowSurrogate_def utf8_encode_def)

text \<open>
  Claim C1 says that whenever the count has grown and a path is set, the text is saved. A
  path that cannot be opened for writing is not written: on a disk where no path can be
  written, with the baseline 0, the path "/d/f.txt" and the text "a", the count has grown
  and the path is set, yet after the handler the file does not exist and the disk is as it
  was.
\<close>

theorem textChanged_unwritable_not_saved:
  "lastParagraphCount (demo_editor (QS ''a'') (QS ''/d/f.txt'') 0 False)
     < countParagraphs (docText (demo_editor (QS ''a'') (QS ''/d/f.txt'') 0 False))
   \<and> currentPath (demo_editor (QS ''a'') (QS ''/d/f.txt'') 0 False) \<noteq> []
   \<and> content (disk (textChanged (demo_editor (QS ''a'') (QS ''/d/f.txt'') 0 False)))
        (currentPath (demo_editor (QS ''a'') (QS ''/d/f.txt'') 0 False)) = None
   \<and> disk (textChanged (demo_editor (QS ''a'') (QS ''/d/f.txt'') 0 False))
       = disk (demo_editor (QS ''a'') (QS ''/d/f.txt'') 0 False)"
  by (simp add: textChanged_def Let_def cp_a demo_fields demo_factory demo_path
      TXTSaver_save_def demo_disk_def)

text \<open>
  Claim C1, amended. For a text-changed event let \<open>c\<close> be the paragraph count of the text
  and \<open>b\<close> the stored baseline. If \<open>c < b\<close>, the observers are notified of \<open>b - c\<close> deleted
  paragraphs and the disk is unchanged. If \<open>c > b\<close>, a path is set and the path can be
  opened for writing, the text is saved through the active format strategy and the
  observers are notified of the save: the file at the path holds the text as the plain,
  the markup or the raw saver writes it, according to the factory in \<^verbatim>\<open>currentFactory\<close>,
  or according to the lowered suffix of the path when no factory is set, and no other file
  changes. If \<open>c > b\<close> and the path cannot be opened for writing, the disk is unchanged.
  If \<open>c > b\<close> and no path is set, or if \<open>c = b\<close>, the disk is unchanged and no event
  occurs. In every case the baseline becomes \<open>c\<close>, and the text, the path and the
  observers stay as they are.
\<close>

theorem textChanged_cases:
  "(countParagraphs (docText st) < lastParagraphCount st \<longrightarrow>
      events (textChanged st) =
        events st @ notifyDeleted (subject st) (lastParagraphCount st - countParagraphs (docText st))
      \<and> disk (textChanged st) = disk st)
   \<and> (lastParagraphCount st < countParagraphs (docText st) \<and> currentPath st \<noteq> []
       \<and> can_write (disk st) (currentPath st) \<and> currentFactory st = Some f \<longrightarrow>
      disk (textChanged st) =
        write_file (disk st) (currentPath st)
          (case f of
             TXTFactory \<Rightarrow> QTextStream_write (docText st)
           | HTMLFactory \<Rightarrow> QTextStream_write (HTMLSaver_text (docText st))
           | BINFactory \<Rightarrow> toUtf8 (docText st))
      \<and> events (textChanged st) = events st @ notifySaved (subject st) (currentPath st))
   \<and> (lastParagraphCount st < countParagraphs (docText st) \<and> currentPath st \<noteq> []
       \<and> can_write (disk st) (currentPath st) \<and> currentFactory st = None \<longrightarrow>
      disk (textChanged st) =
        write_file (disk st) (currentPath st)
          (case factoryForExtension (toLower (suffix (currentPath st))) of
             TXTFactory \<Rightarrow> QTextStream_write (docText st)
           | HTMLFactory \<Rightarrow> QTextStream_write (HTMLSaver_text (docText st))
           | BINFactory \<Rightarrow> toUtf8 (docText st))
      \<and> events (textChanged st) = events st @ notifySaved (subject st) (currentPath st))
   \<and> (lastParagraphCount st < countParagraphs (docText st) \<and> currentPath st \<noteq> []
       \<and> \<not> can_write (disk st) (currentPath st) \<longrightarrow>
      disk (textChanged st) = disk st)
   \<and> (lastParagraphCount st < countParagraphs (docText st) \<and> currentPath st = [] \<longrightarrow>
      disk (textChanged st) = disk st \<and> events (textChanged st) = events st)
   \<and> (countParagraphs (docText st) = lastParagraphCount st \<longrightarrow>
      disk (textChanged st) = disk st \<and> events (textChanged st) = events st)
   \<and> lastParagraphCount (textChanged st) = countParagraphs (docText st)
   \<and> docText (textChanged st) = docText st
   \<and> currentPath (textChanged st) = currentPath st
   \<and> subject (textChanged st) = subject st"
proof -
  have 1: "countParagraphs (docText st) < lastParagraphCount st \<longrightarrow>
      events (textChanged st) =
        events st @ notifyDeleted (subject st) (lastParagraphCount st - countParagraphs (docText st))
      \<and> disk (textChanged st) = disk st"
    by (simp add: textChanged_def Let_def)
  have 2: "lastParagraphCount st < countParagraphs (docText st) \<and> currentPath st \<noteq> []
       \<and> can_write (disk st) (currentPath st) \<and> currentFactory st = Some f \<longrightarrow>
      disk (textChanged st) =
        write_file (disk st) (currentPath st)
          (case f of
             TXTFactory \<Rightarrow> QTextStream_write (docText st)
           | HTMLFactory \<Rightarrow> QTextStream_write (HTMLSaver_text (docText st))
           | BINFactory \<Rightarrow> toUtf8 (docText st))
      \<and> events (textChanged st) = events st @ notifySaved (subject st) (currentPath st)"
    by (simp add: textChanged_def Let_def activeFactory_def createSaver_writable)
  have 3: "lastParagraphCount st < countParagraphs (docText st) \<and> currentPath st \<noteq> []
       \<and> can_write (disk st) (currentPath st) \<and> currentFactory st = None \<longrightarrow>
      disk (textChanged st) =
        write_file (disk st) (currentPath st)
          (case factoryForExtension (toLower (suffix (currentPath st))) of
             TXTFactory \<Rightarrow> QTextStream_write (docText st)
           | HTMLFactory \<Rightarrow> QTextStream_write (HTMLSaver_text (docText st))
           | BINFactory \<Rightarrow> toUtf8 (docText st))
      \<and> events (textChanged st) = events st @ notifySaved (subject st) (currentPath st)"
    by (simp add: textChanged_def Let_def activeFactory_def createSaver_writable)
  have 4: "lastParagraphCount st < countParagraphs (docText st) \<and> currentPath st \<noteq> []
       \<and> \<not> can_write (disk st) (currentPath st) \<longrightarrow>
      disk (textChanged st) = disk st"
    by (simp add: textChanged_def Let_def createSaver_unwritable)
  have 5: "lastParagraphCount st < countParagraphs (docText st) \<and> currentPath st = [] \<longrightarrow>
      disk (textChanged st) = disk st \<and> events (textChanged st) = events st"
    by (simp add: textChanged_def Let_def)
  have 6: "countParagraphs (docText st) = lastParagraphCount st \<longrightarrow>
      disk (textChanged st) = disk st \<and> events (textChanged st) = events st"
    by (simp add: textChanged_def Let_def)
  have 7: "lastParagraphCount (textChanged st) = countParagraphs (docText st)
   \<and> docText (textChanged st) = docText st
   \<and> currentPath (textChanged st) = currentPath st
   \<and> subject (textChanged st) = subject st"
    by (simp add: textChanged_def Let_def)
  from 1 2 3 4 5 6 7 show ?thesis by blast
qed

lemma content_write_file: "content (write_file fs path bytes) path = Some bytes"
  by (simp add: write_file_def)

lemma saved_html_a:
  "QTextStream_write (HTMLSaver_text (QS ''a''))
   = map of_char ''<html><body>\<newline><p>a</p>\<newline>\<newline></body></html>\<newline>''"
proof -
  have "HTMLSaver_text (QS ''a'') = QS ''<html><body>\<newline><p>a</p>\<newline>\<newline></body></html>\<newline>''"
    by (simp add: HTMLSaver_text_def split_skip_empty_def startsWith_def QS_def
        toHtmlEscaped_def escape_chr_def)
  then show ?thesis
    by (simp add: QTextStream_write_def QS_def isHighSurrogate_def isLowSurrogate_def
        utf8_encode_def)
qed

theorem textChanged_cases_witness:
  "events (textChanged (demo_editor (QS ''a'') (QS ''/d/f.txt'') 3 True))
     = [ParagraphsDeleted 1 2]
   \<and> content (disk (textChanged
        ((demo_editor (QS ''a'') (QS ''/d/f.txt'') 0 True)\<lparr>currentFactory := Some HTMLFactory\<rparr>)))
        (QS ''/d/f.txt'')
     = Some (map of_char ''<html><body>\<newline><p>a</p>\<newline>\<newline></body></html>\<newline>'')
   \<and> events (textChanged
        ((demo_editor (QS ''a'') (QS ''/d/f.txt'') 0 True)\<lparr>currentFactory := Some HTMLFactory\<rparr>))
     = [AutoSaved 1 (QS ''/d/f.txt'')]
   \<and> content (disk (textChanged
        ((demo_editor (QS ''a'') (QS ''/d/f.txt'') 0 True)\<lparr>currentFactory := Some BINFactory\<rparr>)))
        (QS ''/d/f.txt'')
     = Some [0x61]
   \<and> content (disk (textChanged (demo_editor (QS ''a'') (QS ''/d/f.html'') 0 True))) (QS ''/d/f.html'')
     = Some (map of_char ''<html><body>\<newline><p>a</p>\<newline>\<newline></body></html>\<newline>'')
   \<and> content (disk (textChanged (demo_editor (QS ''a'') (QS ''/d/f.txt'') 0 True))) (QS ''/d/f.txt'')
     = Some [0x61]
   \<and> disk (textChanged (demo_editor (QS ''a'') (QS ''/d/f.txt'') 0 False)) = demo_disk False
   \<and> events (textChanged (demo_editor (QS ''a'') [] 0 True)) = []
   \<and> events (textChanged (demo_editor (QS ''a'') (QS ''/d/f.txt'') 1 True)) = []
   \<and> lastParagraphCount (textChanged (demo_editor (QS ''a'') (QS ''/d/f.txt'') 3 True)) = 1"
proof -
  let ?p = "QS ''/d/f.txt''" and ?q = "QS ''/d/f.html''"
  let ?s3 = "demo_editor (QS ''a'') ?p 3 True"
  let ?s0 = "demo_editor (QS ''a'') ?p 0 True"
  let ?sH = "?s0\<lparr>currentFactory := Some HTMLFactory\<rparr>"
  let ?sB = "?s0\<lparr>currentFactory := Some BINFactory\<rparr>"
  let ?sq = "demo_editor (QS ''a'') ?q 0 True"
  let ?su = "demo_editor (QS ''a'') ?p 0 False"
  let ?s1 = "demo_editor (QS ''a'') ?p 1 True"
  let ?sn = "demo_editor (QS ''a'') [] 0 True"
  have q: "?q \<noteq> []" by (simp add: QS_def)
  have fq: "factoryForExtension (toLower (suffix ?q)) = HTMLFactory"
    by (simp add: suffix_def QS_def toLower_def factoryForExtension_def)
  have fp: "factoryForExtension (toLower (suffix ?p)) = TXTFactory"
    by (simp add: suffix_def QS_def toLower_def factoryForExtension_def)
  have h3: "countParagraphs (docText ?s3) < lastParagraphCount ?s3"
    by (simp add: demo_fields cp_a)
  have hH: "lastParagraphCount ?sH < countParagraphs (docText ?sH) \<and> currentPath ?sH \<noteq> []
      \<and> can_write (disk ?sH) (currentPath ?sH) \<and> currentFactory ?sH = Some HTMLFactory"
    by (simp add: demo_fields cp_a demo_path demo_disk_def)
  have hB: "lastParagraphCount ?sB < countParagraphs (docText ?sB) \<and> currentPath ?sB \<noteq> []
      \<and> can_write (disk ?sB) (currentPath ?sB) \<and> currentFactory ?sB = Some BINFactory"
    by (simp add: demo_fields cp_a demo_path demo_disk_def)
  have hq: "lastParagraphCount ?sq < countParagraphs (docText ?sq) \<and> currentPath ?sq \<noteq> []
      \<and> can_write (disk ?sq) (currentPath ?sq) \<and> currentFactory ?sq = None"
    by (simp add: demo_fields cp_a q demo_disk_def)
  have h0: "lastParagraphCount ?s0 < countParagraphs (docText ?s0) \<and> currentPath ?s0 \<noteq> []
      \<and> can_write (disk ?s0) (currentPath ?s0) \<and> currentFactory ?s0 = None"
    by (simp add: demo_fields cp_a demo_path demo_disk_def)
  have hu: "lastParagraphCount ?su < countParagraphs (docText ?su) \<and> currentPath ?su \<noteq> []
      \<and> \<not> can_write (disk ?su) (currentPath ?su)"
    by (simp add: demo_fields cp_a demo_path demo_disk_def)
  have hn: "lastParagraphCount ?sn < countParagraphs (docText ?sn) \<and> currentPath ?sn = []"
    by (simp add: demo_fields cp_a)
  have h1: "countParagraphs (docText ?s1) = lastParagraphCount ?s1"
    by (simp add: demo_fields cp_a)
  have a: "events (textChanged ?s3) =
      events ?s3 @ notifyDeleted (subject ?s3) (lastParagraphCount ?s3 - countParagraphs (docText ?s3))"
    using textChanged_cases [of ?s3 TXTFactory] h3 by blast
  have a': "lastParagraphCount (textChanged ?s3) = countParagraphs (docText ?s3)"
    using textChanged_cases [of ?s3 TXTFactory] by blast
  have bH: "disk (textChanged ?sH) =
        write_file (disk ?sH) (currentPath ?sH)
          (case HTMLFactory of
             TXTFactory \<Rightarrow> QTextStream_write (docText ?sH)
           | HTMLFactory \<Rightarrow> QTextStream_write (HTMLSaver_text (docText ?sH))
           | BINFactory \<Rightarrow> toUtf8 (docText ?sH))"
    and eH: "events (textChanged ?sH) = events ?sH @ notifySaved (subject ?sH) (currentPath ?sH)"
    using textChanged_cases [of ?sH HTMLFactory] hH by blast+
  have bB: "disk (textChanged ?sB) =
        write_file (disk ?sB) (currentPath ?sB)
          (case BINFactory of
             TXTFactory \<Rightarrow> QTextStream_write (docText ?sB)
           | HTMLFactory \<Rightarrow> QTextStream_write (HTMLSaver_text (docText ?sB))
           | BINFactory \<Rightarrow> toUtf8 (docText ?sB))"
    using textChanged_cases [of ?sB BINFactory] hB by blast
  have bq: "disk (textChanged ?sq) =
        write_file (disk ?sq) (currentPath ?sq)
          (case factoryForExtension (toLower (suffix (currentPath ?sq))) of
             TXTFactory \<Rightarrow> QTextStream_write (docText ?sq)
           | HTMLFactory \<Rightarrow> QTextStream_write (HTMLSaver_text (docText ?sq))
           | BINFactory \<Rightarrow> toUtf8 (docText ?sq))"
    using textChanged_cases [of ?sq TXTFactory] hq by blast
  have b0: "disk (textChanged ?s0) =
        write_file (disk ?s0) (currentPath ?s0)
          (case factoryForExtension (toLower (suffix (currentPath ?s0))) of
             TXTFactory \<Rightarrow> QTextStream_write (docText ?s0)
           | HTMLFactory \<Rightarrow> QTextStream_write (HTMLSaver_text (docText ?s0))
           | BINFactory \<Rightarrow> toUtf8 (docText ?s0))"
    using textChanged_cases [of ?s0 TXTFactory] h0 by blast
  have u: "disk (textChanged ?su) = disk ?su"
    using textChanged_cases [of ?su TXTFactory] hu by blast
  have c: "events (textChanged ?sn) = events ?sn"
    using textChanged_cases [of ?sn TXTFactory] hn by blast
  have d: "events (textChanged ?s1) = events ?s1"
    using textChanged_cases [of ?s1 TXTFactory] h1 by blast
  have 1: "events (textChanged ?s3) = [ParagraphsDeleted 1 2]"
    unfolding a by (simp add: demo_fields cp_a notifyDeleted_def)
  have 2: "content (disk (textChanged ?sH)) ?p
      = Some (map of_char ''<html><body>\<newline><p>a</p>\<newline>\<newline></body></html>\<newline>'')"
    unfolding bH by (simp add: demo_fields content_write_file saved_html_a)
  have 3: "events (textChanged ?sH) = [AutoSaved 1 ?p]"
    unfolding eH by (simp add: demo_fields notifySaved_def)
  have 4: "content (disk (textChanged ?sB)) ?p = Some [0x61]"
    unfolding bB by (simp add: demo_fields content_write_file toUtf8_a)
  have 5: "content (disk (textChanged ?sq)) ?q
      = Some (map of_char ''<html><body>\<newline><p>a</p>\<newline>\<newline></body></html>\<newline>'')"
    unfolding bq by (simp add: demo_fields fq content_write_file saved_html_a)
  have 6: "content (disk (textChanged ?s0)) ?p = Some [0x61]"
    unfolding b0 by (simp add: demo_fields fp content_write_file QTextStream_write_def toUtf8_a)
  have 7: "disk (textChanged ?su) = demo_disk False"
    unfolding u by (simp add: demo_fields)
  have 8: "events (textChanged ?sn) = []"
    unfolding c by (simp add: demo_fields)
  have 9: "events (textChanged ?s1) = []"
    unfolding d by (simp add: demo_fields)
  have 10: "lastParagraphCount (textChanged ?s3) = 1"
    unfolding a' by (simp add: demo_fields cp_a)
  from 1 2 3 4 5 6 7 8 9 10 show ?thesis by blast
qed

text \<open>
  The closing scenario of the specification: with a path set and the baseline 1, the text
  "one\\n\\ntwo" has two paragraphs, so it is saved and the observer is told; clearing the
  text then reports two deleted paragraphs.
\<close>

lemma textChanged_scenario:
  "events (textChanged (demo_editor (QS ''one\<newline>\<newline>two'') (QS ''/d/f.txt'') 1 True))
     = [AutoSaved 1 (QS ''/d/f.txt'')]
   \<and> lastParagraphCount
        (textChanged (demo_editor (QS ''one\<newline>\<newline>two'') (QS ''/d/f.txt'') 1 True)) = 2
   \<and> events (textChanged
        ((textChanged (demo_editor (QS ''one\<newline>\<newline>two'') (QS ''/d/f.txt'') 1 True))
           \<lparr>docText := []\<rparr>))
     = [AutoSaved 1 (QS ''/d/f.txt''), ParagraphsDeleted 1 2]"
proof -
  have c2: "countParagraphs (QS ''one\<newline>\<newline>two'') = 2"
    by (simp add: countParagraphs_def QS_def para_step_def trimmed_def isSpace_def)
  have c0: "countParagraphs [] = 0"
    by (simp add: countParagraphs_def para_step_def trimmed_def)
  show ?thesis
    by (simp add: textChanged_def Let_def c2 c0 demo_fields demo_path notifySaved_def
        notifyDeleted_def)
qed

section \<open>Failing saves: claim C5\<close>

text \<open>
  Claim C5 asks that a failed save shows an error and fires no notification, for the Save
  action and for the save on paragraph growth alike. The Save action does so. The
  text-changed handler does not look at what \<^verbatim>\<open>save\<close> returns: on a disk where the
  path cannot be written, with the baseline 0 and the text "a", the saver returns
  \<^verbatim>\<open>false\<close> and writes nothing, yet the only event is the notification that the file
  was saved. The Save action in the same state shows the warning.
\<close>

theorem implicit_save_ignores_failure:
  "fst (createSaver TXTFactory (demo_disk False) (QS ''/d/f.txt'') (QS ''a'')) = False
   \<and> events (textChanged (demo_editor (QS ''a'') (QS ''/d/f.txt'') 0 False))
       = [AutoSaved 1 (QS ''/d/f.txt'')]
   \<and> content (disk (textChanged (demo_editor (QS ''a'') (QS ''/d/f.txt'') 0 False))) (QS ''/d/f.txt'')
       = None
   \<and> events (actSave [] (demo_editor (QS ''a'') (QS ''/d/f.txt'') 0 False)) = [SaveWarning]"
proof -
  let ?p = "QS ''/d/f.txt''"
  have 1: "fst (createSaver TXTFactory (demo_disk False) ?p (QS ''a'')) = False"
    by (simp add: TXTSaver_save_def demo_disk_def)
  have 2: "events (textChanged (demo_editor (QS ''a'') ?p 0 False)) = [AutoSaved 1 ?p]
     \<and> content (disk (textChanged (demo_editor (QS ''a'') ?p 0 False))) ?p = None"
    by (simp add: textChanged_def Let_def cp_a demo_fields demo_factory demo_path
        notifySaved_def TXTSaver_save_def demo_disk_def)
  have 3: "events (actSave [] (demo_editor (QS ''a'') ?p 0 False)) = [SaveWarning]"
    by (simp add: actSave_def Let_def demo_fields demo_factory demo_path TXTSaver_save_def
        demo_disk_def)
  from 1 2 3 show ?thesis by blast
qed

text \<open>
  The Save action on a set path: a failed save shows the warning and nothing else, and
  leaves the text and the path as they are; a successful one notifies the observers.
\<close>

lemma actSave_failure:
  "currentPath st \<noteq> [] \<Longrightarrow>
   \<not> fst (createSaver (activeFactory st) (disk st) (currentPath st) (docText st)) \<Longrightarrow>
   events (actSave fname st) = events st @ [SaveWarning]
   \<and> docText (actSave fname st) = docText st \<and> currentPath (actSave fname st) = currentPath st"
  by (simp add: actSave_def Let_def)

lemma actSave_success:
  "currentPath st \<noteq> [] \<Longrightarrow>
   fst (createSaver (activeFactory st) (disk st) (currentPath st) (docText st)) \<Longrightarrow>
   events (actSave fname st) = events st @ notifySaved (subject st) (currentPath st)"
  by (simp add: actSave_def Let_def)

section \<open>Paragraphs across a markup save and load: claim C4\<close>

lemma isSpace_NL: "isSpace 0x0A" by (simp add: isSpace_def)

lemma starts_append: "starts st (s @ t) = starts st s + starts (foldl scan_step st s) t"
  by (induction s arbitrary: st) simp_all

lemma split_chr_nonempty: "split_chr sep s \<noteq> []"
  by (induction s) (auto split: list.splits)

lemma split_chr_Cons_other:
  "c \<noteq> sep \<Longrightarrow> split_chr sep (c # cs) = (c # hd (split_chr sep cs)) # tl (split_chr sep cs)"
  using split_chr_nonempty [of sep cs] by (cases "split_chr sep cs") simp_all

lemma blank_Cons: "blank (c # l) \<longleftrightarrow> isSpace c \<and> blank l"
  by (simp add: blank_iff)

lemma starts_nruns:
  "starts (r, l) s =
     (if l then nruns True (tl (map blank (split_chr 0x0A s)))
      else nruns r (map blank (split_chr 0x0A s)))"
proof (induction s arbitrary: r l)
  case Nil
  show ?case by (simp add: blank_Nil)
next
  case (Cons c cs)
  show ?case
  proof (cases "c = 0x0A")
    case True
    then show ?thesis using Cons.IH [of l False]
      by (simp add: scan_step_def blank_Nil isSpace_NL)
  next
    case False
    obtain l0 ls where sp: "split_chr 0x0A cs = l0 # ls"
      using split_chr_nonempty [of "0x0A" cs] by (cases "split_chr 0x0A cs") auto
    show ?thesis
    proof (cases "isSpace c")
      case True
      then show ?thesis using False Cons.IH [of r l] sp
        by (simp add: scan_step_def blank_Cons)
    next
      case ns: False
      then show ?thesis using False Cons.IH [of r True] sp
        by (simp add: scan_step_def blank_Cons)
    qed
  qed
qed

lemma countParagraphs_starts: "countParagraphs text = int (starts (False, False) text)"
  by (simp add: countParagraphs_nruns starts_nruns)

lemma scan_spaces:
  "\<forall>c \<in> set ws. isSpace c \<Longrightarrow> starts st ws = 0"
  by (induction ws arbitrary: st) simp_all

lemma scan_spaces_state:
  "\<forall>c \<in> set ws. isSpace c \<Longrightarrow> foldl scan_step (False, False) ws = (False, False)"
  by (induction ws) (simp_all add: scan_step_def)

lemma trimmed_decomp:
  "\<exists>ws1 ws2. s = ws1 @ trimmed s @ ws2 \<and> (\<forall>c \<in> set ws1. isSpace c) \<and> (\<forall>c \<in> set ws2. isSpace c)"
proof -
  let ?d = "dropWhile isSpace s"
  have 1: "s = takeWhile isSpace s @ ?d" by simp
  have "rev (takeWhile isSpace (rev ?d) @ dropWhile isSpace (rev ?d)) = rev (rev ?d)"
    by (simp only: takeWhile_dropWhile_id)
  then have "rev (dropWhile isSpace (rev ?d)) @ rev (takeWhile isSpace (rev ?d)) = ?d"
    by (simp only: rev_append rev_rev_ident)
  then have 2: "?d = trimmed s @ rev (takeWhile isSpace (rev ?d))"
    by (simp only: trimmed_def)
  have 3: "\<forall>c \<in> set (takeWhile isSpace s). isSpace c" by (auto dest: set_takeWhileD)
  have 4: "\<forall>c \<in> set (rev (takeWhile isSpace (rev ?d))). isSpace c" by (auto dest: set_takeWhileD)
  from 1 2 have "s = takeWhile isSpace s @ trimmed s @ rev (takeWhile isSpace (rev ?d))" by simp
  with 3 4 show ?thesis by blast
qed

lemma starts_trimmed: "starts (False, False) (trimmed s) = starts (False, False) s"
proof -
  obtain ws1 ws2 where d: "s = ws1 @ trimmed s @ ws2"
    and w1: "\<forall>c \<in> set ws1. isSpace c" and w2: "\<forall>c \<in> set ws2. isSpace c"
    using trimmed_decomp by blast
  have "starts (False, False) (ws1 @ trimmed s @ ws2) = starts (False, False) (trimmed s)"
    by (simp add: starts_append scan_spaces [OF w1] scan_spaces [OF w2] scan_spaces_state [OF w1])
  with d show ?thesis by simp
qed


lemma fold_collapse_step:
  "fst (foldl collapse_step (res, k) lns) = res @ collapse_out k lns"
  by (induction lns arbitrary: res k) (simp_all add: QS_def)

lemma lines_collapsed_out: "lines_collapsed out = collapse_out 0 (split_chr 0x0A out)"
  using fold_collapse_step [of "[]" 0] by (simp add: lines_collapsed_def)

lemma split_chr_no_sep: "l \<in> set (split_chr sep s) \<Longrightarrow> sep \<notin> set l"
proof (induction s arbitrary: l)
  case Nil
  then show ?case by simp
next
  case (Cons c cs)
  show ?case
  proof (cases "c = sep")
    case True
    then show ?thesis using Cons by auto
  next
    case False
    then have "l = c # hd (split_chr sep cs) \<or> l \<in> set (tl (split_chr sep cs))"
      using Cons.prems unfolding split_chr_Cons_other [OF False] by simp
    moreover have "hd (split_chr sep cs) \<in> set (split_chr sep cs)"
      using split_chr_nonempty by simp
    moreover have "set (tl (split_chr sep cs)) \<subseteq> set (split_chr sep cs)"
      by (cases "split_chr sep cs") auto
    ultimately show ?thesis using False Cons.IH by auto
  qed
qed

lemma scan_line_state:
  "0x0A \<notin> set ln \<Longrightarrow> foldl scan_step (r, l) ln = (r, l \<or> \<not> blank ln)"
  by (induction ln arbitrary: l) (auto simp: scan_step_def blank_Cons blank_Nil)

lemma scan_line_starts:
  "0x0A \<notin> set ln \<Longrightarrow> starts (r, False) ln = (if \<not> blank ln \<and> \<not> r then 1 else 0)"
proof (induction ln)
  case Nil
  show ?case by (simp add: blank_Nil)
next
  case (Cons c cs)
  have t: "starts (r, True) xs = 0" if "0x0A \<notin> set xs" for xs
    using that by (induction xs) (auto simp: scan_step_def)
  show ?case using Cons t [of cs]
    by (auto simp: scan_step_def blank_Cons)
qed

lemma starts_collapse_out:
  "\<forall>ln \<in> set lns. 0x0A \<notin> set ln \<Longrightarrow> (0 < k \<longrightarrow> \<not> r) \<Longrightarrow>
   starts (r, False) (collapse_out k lns) = nruns r (map blank lns)"
proof (induction lns arbitrary: k r)
  case Nil
  show ?case by simp
next
  case (Cons ln lns)
  have nl: "0x0A \<notin> set ln" and rest: "\<forall>ln \<in> set lns. 0x0A \<notin> set ln"
    using Cons.prems(1) by auto
  show ?case
  proof (cases "blank ln")
    case True
    then have t: "trimmed ln = []" by (simp add: blank_def)
    show ?thesis
    proof (cases "k + 1 \<le> 2")
      case le: True
      have "starts (r, False) (0x0A # collapse_out (k + 1) lns)
            = starts (False, False) (collapse_out (k + 1) lns)"
        by (simp add: scan_step_def isSpace_NL)
      also have "\<dots> = nruns False (map blank lns)"
        using Cons.IH [of "k + 1" False] rest by simp
      finally show ?thesis using True t le by simp
    next
      case gt: False
      then have "\<not> r" using Cons.prems(2) by simp
      then show ?thesis using True t gt Cons.IH [of "k + 1" False] rest by simp
    qed
  next
    case False
    then have t: "trimmed ln \<noteq> []" by (simp add: blank_def)
    have "starts (r, False) (ln @ 0x0A # collapse_out 0 lns)
          = starts (r, False) ln + starts (r, True) (0x0A # collapse_out 0 lns)"
      using False by (simp add: starts_append scan_line_state [OF nl])
    also have "\<dots> = (if r then 0 else 1) + starts (True, False) (collapse_out 0 lns)"
      using False by (simp add: scan_line_starts [OF nl] scan_step_def isSpace_NL)
    also have "\<dots> = (if r then 0 else 1) + nruns True (map blank lns)"
      using Cons.IH [of 0 True] rest by simp
    finally show ?thesis using False t by simp
  qed
qed

lemma starts_lines_collapsed:
  "starts (False, False) (lines_collapsed out) = starts (False, False) out"
proof -
  have "\<forall>ln \<in> set (split_chr 0x0A out). 0x0A \<notin> set ln"
    using split_chr_no_sep by blast
  then have "starts (False, False) (collapse_out 0 (split_chr 0x0A out))
      = nruns False (map blank (split_chr 0x0A out))"
    by (rule starts_collapse_out) simp
  then show ?thesis by (simp add: lines_collapsed_out starts_nruns)
qed

lemma countParagraphs_htmlToPlain:
  "countParagraphs (htmlToPlain html) = countParagraphs (tags_stripped html)"
  by (simp add: countParagraphs_starts htmlToPlain_def starts_trimmed starts_lines_collapsed)


lemma strip_fold: "fst (foldl strip_step (out, b, tg) s) = out @ strip b tg s"
  by (induction s arbitrary: out b tg) simp_all

lemma tags_stripped_strip: "tags_stripped html = strip False [] html"
  using strip_fold [of "[]" False "[]" html] by (simp add: tags_stripped_def)

lemma strip_False_tag: "strip False tg s = strip False [] s"
  by (induction s) simp_all

lemma strip_text: "0x3C \<notin> set s \<Longrightarrow> strip False tg (s @ rest) = s @ strip False tg rest"
  by (induction s) auto

lemma strip_in_tag:
  "0x3C \<notin> set tag \<Longrightarrow> 0x3E \<notin> set tag \<Longrightarrow>
   strip True tg0 (tag @ 0x3E # rest) = tag_break (tg0 @ tag) @ strip False [] rest"
proof (induction tag arbitrary: tg0)
  case Nil
  show ?case using strip_False_tag [of tg0 rest] by simp
next
  case (Cons c cs)
  then show ?case by simp
qed

lemma strip_tag:
  "0x3C \<notin> set tag \<Longrightarrow> 0x3E \<notin> set tag \<Longrightarrow>
   strip b tg (0x3C # tag @ 0x3E # rest) = tag_break tag @ strip False [] rest"
  using strip_in_tag [of tag "[]" rest] by simp

lemma escape_chr_no_lt: "0x3C \<notin> set (escape_chr c)"
  by (simp add: escape_chr_def QS_def)

lemma escaped_no_lt: "0x3C \<notin> set (toHtmlEscaped p)"
  by (simp add: toHtmlEscaped_def escape_chr_no_lt)

lemma tag_break_values:
  "tag_break (QS ''html'') = []" "tag_break (QS ''body'') = []"
  "tag_break (QS ''/html'') = []" "tag_break (QS ''/body'') = []"
  "tag_break (QS ''p'') = [0x0A, 0x0A]" "tag_break (QS ''/p'') = [0x0A, 0x0A]"
  by (simp_all add: tag_break_def QS_def trimmed_def isSpace_def toLower_def startsWith_def)

lemma strip_tag_eq:
  "0x3C \<notin> set tag \<Longrightarrow> 0x3E \<notin> set tag \<Longrightarrow> tag_break tag = brk \<Longrightarrow>
   strip b tg (0x3C # tag @ 0x3E # rest) = brk @ strip False [] rest"
  using strip_tag [of tag b tg rest] by simp

lemma strip_known_tags:
  "strip b tg (0x3C # QS ''html'' @ 0x3E # rest) = strip False [] rest"
  "strip b tg (0x3C # QS ''body'' @ 0x3E # rest) = strip False [] rest"
  "strip b tg (0x3C # QS ''/html'' @ 0x3E # rest) = strip False [] rest"
  "strip b tg (0x3C # QS ''/body'' @ 0x3E # rest) = strip False [] rest"
  "strip b tg (0x3C # QS ''p'' @ 0x3E # rest) = [0x0A, 0x0A] @ strip False [] rest"
  "strip b tg (0x3C # QS ''/p'' @ 0x3E # rest) = [0x0A, 0x0A] @ strip False [] rest"
  using strip_tag_eq [of "QS ''html''" "[]" b tg rest]
    strip_tag_eq [of "QS ''body''" "[]" b tg rest]
    strip_tag_eq [of "QS ''/html''" "[]" b tg rest]
    strip_tag_eq [of "QS ''/body''" "[]" b tg rest]
    strip_tag_eq [of "QS ''p''" "[0x0A, 0x0A]" b tg rest]
    strip_tag_eq [of "QS ''/p''" "[0x0A, 0x0A]" b tg rest]
  by (simp_all add: tag_break_values) (simp_all add: QS_def)

lemma strip_paragraphs:
  "strip False []
     (concat (map (\<lambda>p. QS ''<p>'' @ toHtmlEscaped p @ QS ''</p>\<newline>'') ps) @ rest)
   = concat (map (\<lambda>p. [0x0A, 0x0A] @ toHtmlEscaped p @ [0x0A, 0x0A, 0x0A]) ps)
     @ strip False [] rest"
proof (induction ps)
  case Nil
  show ?case by simp
next
  case (Cons p ps)
  let ?X = "concat (map (\<lambda>p. QS ''<p>'' @ toHtmlEscaped p @ QS ''</p>\<newline>'') ps) @ rest"
  have o: "QS ''<p>'' = 0x3C # QS ''p'' @ [0x3E]" by (simp add: QS_def)
  have c: "QS ''</p>\<newline>'' = 0x3C # QS ''/p'' @ 0x3E # [0x0A]" by (simp add: QS_def)
  have "strip False [] (QS ''<p>'' @ toHtmlEscaped p @ QS ''</p>\<newline>'' @ ?X)
        = strip False [] (0x3C # QS ''p'' @ 0x3E # (toHtmlEscaped p @ QS ''</p>\<newline>'' @ ?X))"
    by (simp add: o)
  also have "\<dots> = [0x0A, 0x0A] @ strip False [] (toHtmlEscaped p @ QS ''</p>\<newline>'' @ ?X)"
    by (simp only: strip_known_tags append_Nil)
  also have "\<dots> = [0x0A, 0x0A] @ toHtmlEscaped p @ strip False [] (QS ''</p>\<newline>'' @ ?X)"
    by (simp add: strip_text [OF escaped_no_lt])
  also have "strip False [] (QS ''</p>\<newline>'' @ ?X)
        = strip False [] (0x3C # QS ''/p'' @ 0x3E # (0x0A # ?X))"
    by (simp add: c)
  also have "\<dots> = [0x0A, 0x0A] @ strip False [] (0x0A # ?X)"
    by (simp only: strip_known_tags append_Nil)
  also have "\<dots> = [0x0A, 0x0A, 0x0A] @ strip False [] ?X"
    by simp
  finally show ?case using Cons.IH by simp
qed

lemma tags_stripped_saved:
  "tags_stripped (HTMLSaver_text text)
   = [0x0A] @ concat (map (\<lambda>p. [0x0A, 0x0A] @ toHtmlEscaped p @ [0x0A, 0x0A, 0x0A])
                       (split_skip_empty (QS ''\<newline>\<newline>'') text))
     @ [0x0A, 0x0A]"
proof -
  let ?ps = "split_skip_empty (QS ''\<newline>\<newline>'') text"
  let ?body = "concat (map (\<lambda>p. QS ''<p>'' @ toHtmlEscaped p @ QS ''</p>\<newline>'') ?ps)"
  have h: "QS ''<html><body>\<newline>'' = 0x3C # QS ''html'' @ 0x3E # (0x3C # QS ''body'' @ 0x3E # [0x0A])"
    by (simp add: QS_def)
  have f: "QS ''\<newline></body></html>\<newline>''
      = 0x0A # (0x3C # QS ''/body'' @ 0x3E # (0x3C # QS ''/html'' @ 0x3E # [0x0A]))"
    by (simp add: QS_def)
  have foot: "strip False [] (QS ''\<newline></body></html>\<newline>'') = [0x0A, 0x0A]"
  proof -
    have "strip False [] (0x3C # QS ''/html'' @ 0x3E # [0x0A]) = [0x0A]"
      by (simp only: strip_known_tags) simp
    then have "strip False [] (0x3C # QS ''/body'' @ 0x3E # (0x3C # QS ''/html'' @ 0x3E # [0x0A])) = [0x0A]"
      by (simp only: strip_known_tags append_Nil)
    then show ?thesis unfolding f by simp
  qed
  have "strip False [] (HTMLSaver_text text)
      = strip False [] (0x3C # QS ''html'' @ 0x3E #
          (0x3C # QS ''body'' @ 0x3E # (0x0A # (?body @ QS ''\<newline></body></html>\<newline>''))))"
    by (simp add: HTMLSaver_text_def h)
  also have "\<dots> = strip False []
          (0x3C # QS ''body'' @ 0x3E # (0x0A # (?body @ QS ''\<newline></body></html>\<newline>'')))"
    by (simp only: strip_known_tags append_Nil)
  also have "\<dots> = strip False [] (0x0A # (?body @ QS ''\<newline></body></html>\<newline>''))"
    by (simp only: strip_known_tags append_Nil)
  also have "\<dots> = 0x0A # strip False [] (?body @ QS ''\<newline></body></html>\<newline>'')"
    by simp
  finally show ?thesis
    by (simp add: tags_stripped_strip strip_paragraphs foot)
qed


lemma starts_escape_chr: "starts st (escape_chr c @ z) = starts st (c # z)"
proof -
  consider "c = 0x3C" | "c = 0x3E" | "c = 0x26" | "c = 0x22"
    | "c \<noteq> 0x3C \<and> c \<noteq> 0x3E \<and> c \<noteq> 0x26 \<and> c \<noteq> 0x22" by blast
  then show ?thesis
    by cases (cases st; simp add: escape_chr_def QS_def scan_step_def isSpace_def)+
qed

lemma starts_escaped: "starts st (toHtmlEscaped p @ z) = starts st (p @ z)"
proof (induction p arbitrary: st)
  case Nil
  show ?case by (simp add: toHtmlEscaped_def)
next
  case (Cons c cs)
  have "starts st (toHtmlEscaped (c # cs) @ z) = starts st (escape_chr c @ (toHtmlEscaped cs @ z))"
    by (simp add: toHtmlEscaped_def)
  also have "\<dots> = starts st (c # (toHtmlEscaped cs @ z))"
    by (rule starts_escape_chr)
  also have "\<dots> = starts st (c # (cs @ z))"
    using Cons.IH by simp
  finally show ?case by simp
qed

lemma starts_two_NL: "starts st (0x0A # 0x0A # z) = starts (False, False) z"
  by (cases st) (simp add: scan_step_def isSpace_NL)

lemma starts_written_paragraphs:
  "starts (False, False)
     (concat (map (\<lambda>p. [0x0A, 0x0A] @ toHtmlEscaped p @ [0x0A, 0x0A, 0x0A]) ps) @ z)
   = sum_list (map (starts (False, False)) ps) + starts (False, False) z"
proof (induction ps)
  case Nil
  show ?case by simp
next
  case (Cons p ps)
  let ?X = "concat (map (\<lambda>p. [0x0A, 0x0A] @ toHtmlEscaped p @ [0x0A, 0x0A, 0x0A]) ps) @ z"
  have "starts (False, False) (0x0A # 0x0A # (toHtmlEscaped p @ 0x0A # 0x0A # 0x0A # ?X))
        = starts (False, False) (toHtmlEscaped p @ 0x0A # 0x0A # 0x0A # ?X)"
    by (rule starts_two_NL)
  also have "\<dots> = starts (False, False) (p @ 0x0A # 0x0A # 0x0A # ?X)"
    by (rule starts_escaped)
  also have "\<dots> = starts (False, False) p
        + starts (foldl scan_step (False, False) p) (0x0A # 0x0A # (0x0A # ?X))"
    by (rule starts_append)
  also have "starts (foldl scan_step (False, False) p) (0x0A # 0x0A # (0x0A # ?X))
        = starts (False, False) (0x0A # ?X)"
    by (rule starts_two_NL)
  also have "\<dots> = starts (False, False) ?X"
    by (simp add: scan_step_def isSpace_NL)
  finally show ?case using Cons.IH by simp
qed

lemma startsWith_two:
  "startsWith s [a, b] \<longleftrightarrow> (\<exists>rest. s = a # b # rest)"
  by (cases s; cases "tl s") (auto simp: startsWith_def)

lemma sum_split_from:
  "sum_list (map (starts (False, False)) (split_from [0x0A, 0x0A] cur s))
   = starts (False, False) (cur @ s)"
proof (induction "[0x0A, 0x0A] :: qstring" cur s rule: split_from.induct)
  case (1 cur)
  show ?case by simp
next
  case (2 cur c cs)
  show ?case
  proof (cases "startsWith (c # cs) [0x0A, 0x0A]")
    case True
    then obtain rest where r: "c # cs = 0x0A # 0x0A # rest"
      by (auto simp: startsWith_two)
    have "sum_list (map (starts (False, False)) (split_from [0x0A, 0x0A] cur (c # cs)))
          = starts (False, False) cur + starts (False, False) rest"
      using True "2.hyps"(1) r by simp
    also have "\<dots> = starts (False, False) (cur @ 0x0A # 0x0A # rest)"
      by (simp only: starts_append starts_two_NL)
    finally show ?thesis using r by simp
  next
    case False
    then show ?thesis using "2.hyps"(2) by simp
  qed
qed

lemma sum_skip_empty:
  "sum_list (map (starts (False, False)) (filter (\<lambda>p. p \<noteq> []) xs))
   = sum_list (map (starts (False, False)) xs)"
  by (induction xs) simp_all

lemma sum_paragraph_pieces:
  "sum_list (map (starts (False, False)) (split_skip_empty (QS ''\<newline>\<newline>'') text))
   = starts (False, False) text"
proof -
  have "QS ''\<newline>\<newline>'' = [0x0A, 0x0A]" by (simp add: QS_def)
  then show ?thesis
    using sum_split_from [of "[]" "text"] by (simp add: split_skip_empty_def sum_skip_empty)
qed

text \<open>
  Claim C4. For every text, the text that the markup saver writes, read back by
  \<^verbatim>\<open>htmlToPlain\<close>, has the paragraph count of the text:
  \<^verbatim>\<open>countParagraphs(htmlToPlain(saved)) = countParagraphs(text)\<close>.
\<close>

theorem markup_roundtrip_paragraph_count:
  "countParagraphs (htmlToPlain (HTMLSaver_text text)) = countParagraphs text"
proof -
  let ?ps = "split_skip_empty (QS ''\<newline>\<newline>'') text"
  have "starts (False, False) (tags_stripped (HTMLSaver_text text))
        = starts (False, False)
            (0x0A # (concat (map (\<lambda>p. [0x0A, 0x0A] @ toHtmlEscaped p @ [0x0A, 0x0A, 0x0A]) ?ps)
                     @ [0x0A, 0x0A]))"
    by (simp add: tags_stripped_saved)
  also have "\<dots> = starts (False, False)
            (concat (map (\<lambda>p. [0x0A, 0x0A] @ toHtmlEscaped p @ [0x0A, 0x0A, 0x0A]) ?ps)
             @ [0x0A, 0x0A])"
    by (simp add: scan_step_def isSpace_NL)
  also have "\<dots> = sum_list (map (starts (False, False)) ?ps) + starts (False, False) [0x0A, 0x0A]"
    by (rule starts_written_paragraphs)
  also have "\<dots> = starts (False, False) text"
    by (simp add: sum_paragraph_pieces scan_step_def isSpace_NL)
  finally have "countParagraphs (tags_stripped (HTMLSaver_text text)) = countParagraphs text"
    by (simp add: countParagraphs_starts)
  then show ?thesis
    by (simp only: countParagraphs_htmlToPlain)
qed

section \<open>The markup reader: claim C7\<close>

lemma blank_ok_flags:
  "blank_ok k l s =
     (if l then runs_ok 0 (tl (map blank (split_chr 0x0A s)))
      else runs_ok k (map blank (split_chr 0x0A s)))"
proof (induction s arbitrary: k l)
  case Nil
  show ?case by (simp add: blank_Nil)
next
  case (Cons c cs)
  show ?case
  proof (cases "c = 0x0A")
    case True
    then show ?thesis using Cons.IH [of 0 False] Cons.IH [of "k + 1" False]
      by (simp add: blank_Nil)
  next
    case False
    obtain l0 ls where sp: "split_chr 0x0A cs = l0 # ls"
      using split_chr_nonempty [of "0x0A" cs] by (cases "split_chr 0x0A cs") auto
    show ?thesis
      using False Cons.IH [of k "l \<or> \<not> isSpace c"] sp
      by (auto simp: blank_Cons)
  qed
qed

lemma runs_ok_three: "\<not> runs_ok k (pre @ [True, True, True] @ post)"
  by (induction pre arbitrary: k) auto

lemma blank_ok_mono: "k' \<le> k \<Longrightarrow> blank_ok k l s \<Longrightarrow> blank_ok k' l s"
proof (induction s arbitrary: k k' l)
  case Nil
  then show ?case by auto
next
  case (Cons c cs)
  show ?case
  proof (cases "c = 0x0A \<and> \<not> l")
    case True
    then have "k < 2" and "blank_ok (k + 1) False cs" using Cons.prems(2) by auto
    then have "k' < 2" and "blank_ok (k' + 1) False cs"
      using Cons.prems(1) Cons.IH [of "k' + 1" "k + 1" False] by auto
    then show ?thesis using True by simp
  next
    case False
    then show ?thesis using Cons.prems Cons.IH [of k' k "l \<or> \<not> isSpace c"]
      by (auto split: if_splits)
  qed
qed

lemma blank_ok_drop_space: "isSpace c \<Longrightarrow> blank_ok k False (c # s) \<Longrightarrow> blank_ok k False s"
  using blank_ok_mono [of k "k + 1" False s] by (auto split: if_splits)

lemma blank_ok_drop_spaces:
  "\<forall>c \<in> set ws. isSpace c \<Longrightarrow> blank_ok k False (ws @ s) \<Longrightarrow> blank_ok k False s"
  by (induction ws) (auto dest: blank_ok_drop_space simp del: blank_ok.simps)

lemma blank_ok_prefix:
  "t \<noteq> [] \<Longrightarrow> \<not> isSpace (last t) \<Longrightarrow> blank_ok k l (t @ u) \<Longrightarrow> blank_ok k l t"
proof (induction t arbitrary: k l)
  case Nil
  then show ?case by simp
next
  case (Cons c cs)
  show ?case
  proof (cases "cs = []")
    case True
    then have "\<not> isSpace c" using Cons.prems(2) by simp
    then have "c \<noteq> 0x0A" using isSpace_NL by auto
    then show ?thesis using True \<open>\<not> isSpace c\<close> by simp
  next
    case False
    then have l: "\<not> isSpace (last cs)" using Cons.prems(2) by simp
    show ?thesis using Cons.prems(3) Cons.IH [OF False l]
      by (auto split: if_splits)
  qed
qed

lemma blank_ok_line:
  "0x0A \<notin> set ln \<Longrightarrow> blank_ok k l (ln @ rest) = blank_ok k (l \<or> \<not> blank ln) rest"
  by (induction ln arbitrary: l) (auto simp: blank_Cons blank_Nil)

lemma blank_ok_collapse_out:
  "\<forall>ln \<in> set lns. 0x0A \<notin> set ln \<Longrightarrow> \<not> isSpace x \<Longrightarrow>
   blank_ok (min k 2) False (collapse_out k lns @ [x])"
proof (induction lns arbitrary: k)
  case Nil
  then have "x \<noteq> 0x0A" using isSpace_NL by auto
  then show ?case using Nil by simp
next
  case (Cons ln lns)
  have nl: "0x0A \<notin> set ln" and rest: "\<forall>ln \<in> set lns. 0x0A \<notin> set ln"
    using Cons.prems(1) by auto
  show ?case
  proof (cases "trimmed ln = []")
    case True
    show ?thesis
    proof (cases "k + 1 \<le> 2")
      case le: True
      then have m: "min k 2 = k" "min (k + 1) 2 = k + 1" by auto
      show ?thesis using True le Cons.IH [OF rest Cons.prems(2), of "k + 1"] m by simp
    next
      case gt: False
      then have m: "min k 2 = 2" "min (k + 1) 2 = 2" by auto
      show ?thesis using True gt Cons.IH [OF rest Cons.prems(2), of "k + 1"] m
        by (simp add: numeral_2_eq_2)
    qed
  next
    case False
    then have nb: "\<not> blank ln" by (simp add: blank_def)
    have "blank_ok (min k 2) False (ln @ 0x0A # collapse_out 0 lns @ [x])
          = blank_ok (min k 2) True (0x0A # collapse_out 0 lns @ [x])"
      using nb by (simp add: blank_ok_line [OF nl])
    then show ?thesis using False Cons.IH [OF rest Cons.prems(2), of 0] by simp
  qed
qed

lemma trimmed_tail:
  "dropWhile isSpace s = trimmed s @ rev (takeWhile isSpace (rev (dropWhile isSpace s)))"
proof -
  let ?d = "dropWhile isSpace s"
  have "rev (takeWhile isSpace (rev ?d) @ dropWhile isSpace (rev ?d)) = rev (rev ?d)"
    by (simp only: takeWhile_dropWhile_id)
  then have "rev (dropWhile isSpace (rev ?d)) @ rev (takeWhile isSpace (rev ?d)) = ?d"
    by (simp only: rev_append rev_rev_ident)
  then show ?thesis by (simp only: trimmed_def)
qed

lemma trimmed_ends:
  assumes n: "trimmed s \<noteq> []"
  shows "\<not> isSpace (hd (trimmed s)) \<and> \<not> isSpace (last (trimmed s))"
proof -
  let ?d = "dropWhile isSpace s"
  have e: "dropWhile isSpace (rev ?d) \<noteq> []" using n by (simp add: trimmed_def)
  have "last (trimmed s) = hd (dropWhile isSpace (rev ?d))"
    using e by (simp add: trimmed_def last_rev)
  then have 1: "\<not> isSpace (last (trimmed s))" using hd_dropWhile [OF e] by simp
  have "hd ?d = hd (trimmed s @ rev (takeWhile isSpace (rev ?d)))"
    using trimmed_tail [of s] by simp
  then have h: "hd ?d = hd (trimmed s)" using n by simp
  have dn: "?d \<noteq> []" using e by (cases ?d) (simp_all del: dropWhile_eq_Nil_conv)
  have "\<not> isSpace (hd ?d)" using dn by (rule hd_dropWhile)
  then show ?thesis using 1 h by simp
qed

lemma trimmed_idem: "trimmed (trimmed s) = trimmed s"
proof (cases "trimmed s = []")
  case True
  have "trimmed [] = []" by (simp add: trimmed_def)
  then show ?thesis by (simp only: True)
next
  case False
  let ?t = "trimmed s"
  have h: "\<not> isSpace (hd ?t)" and l: "\<not> isSpace (last ?t)"
    using trimmed_ends [OF False] by auto
  have keep: "xs \<noteq> [] \<Longrightarrow> \<not> isSpace (hd xs) \<Longrightarrow> dropWhile isSpace xs = xs" for xs
    by (cases xs) simp_all
  have 1: "dropWhile isSpace ?t = ?t" using False h by (rule keep)
  have "hd (rev ?t) = last ?t" using False by (simp add: hd_rev)
  then have 2: "dropWhile isSpace (rev ?t) = rev ?t"
    using False l by (intro keep) simp_all
  show ?thesis unfolding trimmed_def [of ?t] 1 2 by simp
qed

lemma trimmed_decompE:
  obtains ws1 ws2 where "s = ws1 @ trimmed s @ ws2"
    and "\<forall>c \<in> set ws1. isSpace c" and "\<forall>c \<in> set ws2. isSpace c"
  using trimmed_decomp by blast

lemma single_not_three: "[True] \<noteq> pre @ [True, True, True] @ post"
proof
  assume "[True] = pre @ [True, True, True] @ post"
  then have "length [True] = length (pre @ [True, True, True] @ post)" by (rule arg_cong)
  then show False by simp
qed

lemma no_three_blank_lines:
  "\<not> (\<exists>pre post. map blank (split_chr 0x0A (htmlToPlain html)) = pre @ [True, True, True] @ post)"
proof (cases "htmlToPlain html = []")
  case True
  have "map blank (split_chr 0x0A (htmlToPlain html)) = [True]"
    unfolding True by (simp add: blank_Nil)
  then show ?thesis using single_not_three by metis
next
  case False
  let ?R = "lines_collapsed (tags_stripped html)"
  let ?t = "htmlToPlain html"
  have t: "trimmed ?R = ?t" by (simp add: htmlToPlain_def)
  obtain ws1 ws2 where d: "?R = ws1 @ trimmed ?R @ ws2" and w1: "\<forall>c \<in> set ws1. isSpace c"
    by (rule trimmed_decompE)
  have x: "\<not> isSpace 0x78" by (simp add: isSpace_def)
  have "\<forall>ln \<in> set (split_chr 0x0A (tags_stripped html)). 0x0A \<notin> set ln"
    using split_chr_no_sep by blast
  then have "blank_ok (min 0 2) False (collapse_out 0 (split_chr 0x0A (tags_stripped html)) @ [0x78])"
    using x by (rule blank_ok_collapse_out)
  then have "blank_ok 0 False (?R @ [0x78])"
    by (simp only: lines_collapsed_out min_0L)
  then have "blank_ok 0 False ((ws1 @ trimmed ?R @ ws2) @ [0x78])"
    by (simp only: d [symmetric])
  then have "blank_ok 0 False (ws1 @ (?t @ (ws2 @ [0x78])))"
    by (simp only: append_assoc t)
  then have "blank_ok 0 False (?t @ (ws2 @ [0x78]))"
    using w1 by (rule blank_ok_drop_spaces [rotated])
  moreover have "\<not> isSpace (last ?t)"
    using trimmed_ends [of ?R] False unfolding t by blast
  ultimately have "blank_ok 0 False ?t" using False blank_ok_prefix by blast
  then have ok: "runs_ok 0 (map blank (split_chr 0x0A ?t))" by (simp add: blank_ok_flags)
  show ?thesis
  proof
    assume "\<exists>pre post. map blank (split_chr 0x0A ?t) = pre @ [True, True, True] @ post"
    then obtain pre post where "map blank (split_chr 0x0A ?t) = pre @ [True, True, True] @ post"
      by blast
    then have "runs_ok 0 (pre @ [True, True, True] @ post)" using ok by simp
    then show False using runs_ok_three by blast
  qed
qed

lemma tag_break_subset: "set (tag_break tag) \<subseteq> {0x0A}"
  by (auto simp: tag_break_def Let_def QS_def split: if_splits)

lemma strip_no_lt: "0x3C \<notin> set (strip b tg s)"
proof (induction s arbitrary: b tg)
  case Nil
  show ?case by simp
next
  case (Cons c cs)
  have "0x3C \<notin> set (tag_break tg)" using tag_break_subset [of tg] by auto
  then show ?case using Cons by simp
qed

lemma split_chr_subset: "ln \<in> set (split_chr sep s) \<Longrightarrow> set ln \<subseteq> set s"
proof (induction s arbitrary: ln)
  case Nil
  then show ?case by simp
next
  case (Cons c cs)
  show ?case
  proof (cases "c = sep")
    case True
    then show ?thesis using Cons by auto
  next
    case False
    have h: "hd (split_chr sep cs) \<in> set (split_chr sep cs)"
      using split_chr_nonempty by simp
    have t: "set (tl (split_chr sep cs)) \<subseteq> set (split_chr sep cs)"
      by (cases "split_chr sep cs") auto
    have hs: "set (hd (split_chr sep cs)) \<subseteq> set cs" using h by (rule Cons.IH)
    have "ln = c # hd (split_chr sep cs) \<or> ln \<in> set (tl (split_chr sep cs))"
      using Cons.prems unfolding split_chr_Cons_other [OF False] by simp
    then show ?thesis
    proof
      assume "ln = c # hd (split_chr sep cs)"
      then show ?thesis using hs by auto
    next
      assume "ln \<in> set (tl (split_chr sep cs))"
      then have "ln \<in> set (split_chr sep cs)" using t by blast
      then have "set ln \<subseteq> set cs" by (rule Cons.IH)
      then show ?thesis by auto
    qed
  qed
qed

lemma collapse_out_subset:
  "x \<in> set (collapse_out k lns) \<Longrightarrow> x = 0x0A \<or> (\<exists>ln \<in> set lns. x \<in> set ln)"
  by (induction lns arbitrary: k) (auto split: if_splits)

lemma trimmed_subset: "set (trimmed s) \<subseteq> set s"
  by (auto simp: trimmed_def dest!: set_dropWhileD)

lemma htmlToPlain_no_lt: "0x3C \<notin> set (htmlToPlain html)"
proof
  assume "0x3C \<in> set (htmlToPlain html)"
  then have "0x3C \<in> set (lines_collapsed (tags_stripped html))"
    using trimmed_subset by (auto simp: htmlToPlain_def)
  then have "\<exists>ln \<in> set (split_chr 0x0A (tags_stripped html)). 0x3C \<in> set ln"
    using collapse_out_subset [of "0x3C" 0] by (auto simp: lines_collapsed_out)
  then have "0x3C \<in> set (tags_stripped html)" using split_chr_subset by blast
  then show False using strip_no_lt by (simp add: tags_stripped_strip)
qed

lemma tags_stripped_tag:
  "0x3C \<notin> set pre \<Longrightarrow> 0x3C \<notin> set tag \<Longrightarrow> 0x3E \<notin> set tag \<Longrightarrow>
   tags_stripped (pre @ 0x3C # tag @ 0x3E # post) = pre @ tag_break tag @ tags_stripped post"
  by (simp add: tags_stripped_strip strip_text strip_tag del: strip.simps)

lemma strip_open_tag: "0x3E \<notin> set s \<Longrightarrow> strip True tg s = []"
  by (induction s arbitrary: tg) auto

lemma tags_stripped_open_tag:
  "0x3C \<notin> set pre \<Longrightarrow> 0x3E \<notin> set rest \<Longrightarrow> tags_stripped (pre @ 0x3C # rest) = pre"
  by (simp add: tags_stripped_strip strip_text strip_open_tag)

lemma tags_stripped_text: "0x3C \<notin> set pre \<Longrightarrow> tags_stripped pre = pre"
  using strip_text [of pre "[]" "[]"] by (simp add: tags_stripped_strip)

lemma startsWith_simps:
  "startsWith s []" "startsWith [] (b # p) = False"
  "startsWith (a # u) (b # p) = (a = b \<and> startsWith u p)"
  by (simp_all add: startsWith_def)

lemma tag_break_cases:
  "tag_break tag =
     (if startsWith (toLower (trimmed tag)) (QS ''br'')
         \<or> startsWith (toLower (trimmed tag)) (QS ''p'')
         \<or> startsWith (toLower (trimmed tag)) (QS ''/p'')
      then QS ''\<newline>\<newline>'' else [])"
proof -
  have "(if startsWith t (QS ''br'') \<or> startsWith t (QS ''br/'') then QS ''\<newline>\<newline>'' else [])
        @ (if startsWith t (QS ''p'') \<or> startsWith t (QS ''/p'') then QS ''\<newline>\<newline>'' else [])
      = (if startsWith t (QS ''br'') \<or> startsWith t (QS ''p'') \<or> startsWith t (QS ''/p'')
         then QS ''\<newline>\<newline>'' else [])" for t
  proof (cases t)
    case Nil
    then show ?thesis by (simp add: startsWith_simps QS_def)
  next
    case (Cons a u)
    then show ?thesis
      by (cases u) (simp_all add: startsWith_simps QS_def)
  qed
  then show ?thesis by (simp add: tag_break_def Let_def)
qed

lemma split_chr_no_sep_id: "sep \<notin> set s \<Longrightarrow> split_chr sep s = [s]"
  by (induction s) auto

lemma trimmed_snoc_space: "isSpace c \<Longrightarrow> trimmed (s @ [c]) = trimmed s"
proof (cases "\<forall>x \<in> set s. isSpace x")
  case True
  assume "isSpace c"
  then have "trimmed (s @ [c]) = []" using True by (simp add: trimmed_Nil_iff)
  moreover have "trimmed s = []" using True by (simp add: trimmed_Nil_iff)
  ultimately show ?thesis by simp
next
  case False
  assume c: "isSpace c"
  from False obtain x where "x \<in> set s" "\<not> isSpace x" by blast
  then have "dropWhile isSpace (s @ [c]) = dropWhile isSpace s @ [c]"
    by (rule dropWhile_append1)
  then show ?thesis using c by (simp add: trimmed_def)
qed

lemma htmlToPlain_text:
  "0x3C \<notin> set s \<Longrightarrow> 0x0A \<notin> set s \<Longrightarrow> htmlToPlain s = trimmed s"
proof -
  assume lt: "0x3C \<notin> set s" and nl: "0x0A \<notin> set s"
  have "lines_collapsed s = (if trimmed s = [] then [0x0A] else s @ [0x0A])"
    by (simp add: lines_collapsed_out split_chr_no_sep_id [OF nl])
  moreover have "trimmed [0x0A] = []" by (simp add: trimmed_def isSpace_NL)
  moreover have "trimmed (s @ [0x0A]) = trimmed s" using isSpace_NL by (rule trimmed_snoc_space)
  ultimately show ?thesis by (simp add: htmlToPlain_def tags_stripped_text [OF lt])
qed


lemma kept_lines_from: "kept_lines lns = kept_from False False lns"
proof -
  have "dropped lns i = dropped_from False False lns i" for i
    by (cases i; cases "i - 1") (auto simp: dropped_def dropped_from_def)
  then show ?thesis by (simp add: kept_lines_def kept_from_def)
qed

lemma kept_from_Cons:
  "kept_from b1 b2 (l # ls) =
     (if blank l \<and> b1 \<and> b2 then [] else [if blank l then [] else l]) @ kept_from (blank l) b1 ls"
proof -
  have u: "[0..<length (l # ls)] = 0 # map Suc [0..<length ls]"
    by (simp add: upt_conv_Cons map_Suc_upt del: upt_Suc)
  have s: "dropped_from b1 b2 (l # ls) (Suc j) = dropped_from (blank l) b1 ls j" for j
    by (cases j; cases "j - 1") (auto simp: dropped_from_def)
  have z: "dropped_from b1 b2 (l # ls) 0 = (blank l \<and> b1 \<and> b2)"
    by (simp add: dropped_from_def)
  have f: "filter (\<lambda>i. \<not> dropped_from b1 b2 (l # ls) i) (0 # map Suc [0..<length ls])
      = (if blank l \<and> b1 \<and> b2 then [] else [0])
        @ map Suc (filter (\<lambda>j. \<not> dropped_from (blank l) b1 ls j) [0..<length ls])"
    by (simp only: filter.simps z filter_map comp_def s) simp
  show ?thesis
    unfolding kept_from_def u f
    by (simp del: upt_Suc)
qed

lemma kept_from_False: "kept_from False b ls = kept_from False False ls"
proof -
  have "dropped_from False b ls i = dropped_from False False ls i" for i
    by (auto simp: dropped_from_def)
  then show ?thesis by (simp add: kept_from_def)
qed

lemma collapse_out_kept:
  "collapse_out k lns = join_lines (kept_from (1 \<le> k) (2 \<le> k) lns)"
proof (induction lns arbitrary: k)
  case Nil
  show ?case by (simp add: kept_from_def join_lines_def)
next
  case (Cons l ls)
  show ?case
  proof (cases "blank l")
    case True
    have e: "(1 \<le> k + 1) = True" "(2 \<le> k + 1) = (1 \<le> k)" by auto
    have "collapse_out (k + 1) ls = join_lines (kept_from True (1 \<le> k) ls)"
      using Cons.IH [of "k + 1"] unfolding e .
    then show ?thesis using True
      by (auto simp: kept_from_Cons join_lines_def blank_def)
  next
    case False
    have "collapse_out 0 ls = join_lines (kept_from False False ls)"
      using Cons.IH [of 0] by simp
    then show ?thesis using False kept_from_False [of "1 \<le> k" ls]
      by (simp add: kept_from_Cons join_lines_def blank_def)
  qed
qed

lemma htmlToPlain_kept:
  "htmlToPlain html = trimmed (join_lines (kept_lines (split_chr 0x0A (tags_stripped html))))"
  using collapse_out_kept [of 0 "split_chr 0x0A (tags_stripped html)"]
  by (simp add: htmlToPlain_def lines_collapsed_out kept_lines_from)

lemma htmlToPlain_tag_free:
  "0x3C \<notin> set s \<Longrightarrow> htmlToPlain s = trimmed (join_lines (kept_lines (split_chr 0x0A s)))"
  by (simp add: htmlToPlain_kept tags_stripped_text)

lemma htmlToPlain_cong: "tags_stripped a = tags_stripped b \<Longrightarrow> htmlToPlain a = htmlToPlain b"
  by (simp add: htmlToPlain_def)

lemma tag_break_no_lt: "0x3C \<notin> set (tag_break tag)"
  using tag_break_subset [of tag] by auto

lemma htmlToPlain_tag:
  assumes "0x3C \<notin> set pre" "0x3C \<notin> set tag" "0x3E \<notin> set tag"
  shows "htmlToPlain (pre @ 0x3C # tag @ 0x3E # post) = htmlToPlain (pre @ tag_break tag @ post)"
proof (rule htmlToPlain_cong)
  have n: "0x3C \<notin> set (pre @ tag_break tag)" using assms(1) tag_break_no_lt by simp
  have "tags_stripped ((pre @ tag_break tag) @ post) = (pre @ tag_break tag) @ tags_stripped post"
    using strip_text [OF n, of "[]" post] by (simp only: tags_stripped_strip)
  then show "tags_stripped (pre @ 0x3C # tag @ 0x3E # post) = tags_stripped (pre @ tag_break tag @ post)"
    using tags_stripped_tag [OF assms, of post] by simp
qed

lemma strip_restart:
  "0x3E \<notin> set junk \<Longrightarrow> strip True tg (junk @ 0x3C # rest) = strip True [] rest"
  by (induction junk arbitrary: tg) auto

lemma htmlToPlain_restart:
  assumes "0x3C \<notin> set pre" "0x3E \<notin> set junk"
  shows "htmlToPlain (pre @ 0x3C # junk @ 0x3C # rest) = htmlToPlain (pre @ 0x3C # rest)"
proof (rule htmlToPlain_cong)
  show "tags_stripped (pre @ 0x3C # junk @ 0x3C # rest) = tags_stripped (pre @ 0x3C # rest)"
    using assms by (simp add: tags_stripped_strip strip_text strip_restart)
qed

lemma htmlToPlain_open_tag:
  assumes "0x3C \<notin> set pre" "0x3E \<notin> set rest"
  shows "htmlToPlain (pre @ 0x3C # rest) = htmlToPlain pre"
  using assms by (intro htmlToPlain_cong) (simp add: tags_stripped_open_tag tags_stripped_text)


text \<open>
  Claim C7. For every markup input: no tag opener \<^verbatim>\<open><\<close> is left in the result of
  \<^verbatim>\<open>htmlToPlain\<close>. A tag (an opener, a name free of \<^verbatim>\<open><\<close> and \<^verbatim>\<open>>\<close>, a closer) after
  tag-free text counts as two newlines when its name, trimmed and lowered, begins with
  "br", "p" or "/p", and as nothing otherwise: the result is that of the input with the
  tag replaced so. An opener before another opener with no closer between them is dropped
  with what stands between; a tag that is never closed is dropped with all that follows
  it. On tag-free text the result is the text with each blank line that follows two
  blank lines dropped and the other blank lines emptied, trimmed. The lines of the result
  never show three blank lines in a row. The result is trimmed: trimming it again changes
  nothing, and when it is not empty its first and last characters are not white space.
  Entities are not decoded: a text without opener and newline comes back trimmed and
  otherwise unchanged, "a &amp; b" as itself. "x<BR>y" gives "x", an empty line, "y";
  "x<b>y</b>z" gives "xyz"; five blank lines between "a" and "b" become two.
\<close>

theorem htmlToPlain_properties:
  "0x3C \<notin> set (htmlToPlain html)
   \<and> (0x3C \<notin> set pre \<and> 0x3C \<notin> set tag \<and> 0x3E \<notin> set tag \<longrightarrow>
        htmlToPlain (pre @ 0x3C # tag @ 0x3E # post)
        = htmlToPlain (pre @ (if startsWith (toLower (trimmed tag)) (QS ''br'')
                          \<or> startsWith (toLower (trimmed tag)) (QS ''p'')
                          \<or> startsWith (toLower (trimmed tag)) (QS ''/p'')
                       then QS ''\<newline>\<newline>'' else []) @ post))
   \<and> (0x3C \<notin> set pre \<and> 0x3E \<notin> set junk \<longrightarrow>
        htmlToPlain (pre @ 0x3C # junk @ 0x3C # rest) = htmlToPlain (pre @ 0x3C # rest))
   \<and> (0x3C \<notin> set pre \<and> 0x3E \<notin> set rest \<longrightarrow> htmlToPlain (pre @ 0x3C # rest) = htmlToPlain pre)
   \<and> (0x3C \<notin> set s \<longrightarrow>
        htmlToPlain s = trimmed (join_lines (kept_lines (split_chr 0x0A s))))
   \<and> \<not> (\<exists>ls rs. map blank (split_chr 0x0A (htmlToPlain html)) = ls @ [True, True, True] @ rs)
   \<and> trimmed (htmlToPlain html) = htmlToPlain html
   \<and> (htmlToPlain html \<noteq> [] \<longrightarrow>
        \<not> isSpace (hd (htmlToPlain html)) \<and> \<not> isSpace (last (htmlToPlain html)))
   \<and> (0x3C \<notin> set s \<and> 0x0A \<notin> set s \<longrightarrow> htmlToPlain s = trimmed s)
   \<and> htmlToPlain (QS ''a &amp; b'') = QS ''a &amp; b''
   \<and> htmlToPlain (QS ''x<BR>y'') = QS ''x\<newline>\<newline>y''
   \<and> htmlToPlain (QS ''x<b>y</b>z'') = QS ''xyz''
   \<and> htmlToPlain (QS ''a\<newline>\<newline> \<newline>\<newline>\<newline>b'') = QS ''a\<newline>\<newline>\<newline>b''"
proof -
  have 1: "0x3C \<notin> set (htmlToPlain html)" by (rule htmlToPlain_no_lt)
  have 2: "0x3C \<notin> set pre \<and> 0x3C \<notin> set tag \<and> 0x3E \<notin> set tag \<longrightarrow>
        htmlToPlain (pre @ 0x3C # tag @ 0x3E # post)
        = htmlToPlain (pre @ (if startsWith (toLower (trimmed tag)) (QS ''br'')
                          \<or> startsWith (toLower (trimmed tag)) (QS ''p'')
                          \<or> startsWith (toLower (trimmed tag)) (QS ''/p'')
                       then QS ''\<newline>\<newline>'' else []) @ post)"
    using htmlToPlain_tag [of pre tag post] by (simp only: tag_break_cases) blast
  have 3: "0x3C \<notin> set pre \<and> 0x3E \<notin> set junk \<longrightarrow>
        htmlToPlain (pre @ 0x3C # junk @ 0x3C # rest) = htmlToPlain (pre @ 0x3C # rest)"
    using htmlToPlain_restart by blast
  have 4: "0x3C \<notin> set pre \<and> 0x3E \<notin> set rest \<longrightarrow> htmlToPlain (pre @ 0x3C # rest) = htmlToPlain pre"
    using htmlToPlain_open_tag by blast
  have 5: "0x3C \<notin> set s \<longrightarrow>
        htmlToPlain s = trimmed (join_lines (kept_lines (split_chr 0x0A s)))"
    using htmlToPlain_tag_free by blast
  have 6: "\<not> (\<exists>ls rs. map blank (split_chr 0x0A (htmlToPlain html)) = ls @ [True, True, True] @ rs)"
    by (rule no_three_blank_lines)
  have 7: "trimmed (htmlToPlain html) = htmlToPlain html"
    by (simp only: htmlToPlain_def trimmed_idem)
  have 8: "htmlToPlain html \<noteq> [] \<longrightarrow>
        \<not> isSpace (hd (htmlToPlain html)) \<and> \<not> isSpace (last (htmlToPlain html))"
    unfolding htmlToPlain_def using trimmed_ends by blast
  have 9: "0x3C \<notin> set s \<and> 0x0A \<notin> set s \<longrightarrow> htmlToPlain s = trimmed s"
    using htmlToPlain_text by blast
  have "0x3C \<notin> set (QS ''a &amp; b'')" "0x0A \<notin> set (QS ''a &amp; b'')"
    by (simp_all add: QS_def)
  then have "htmlToPlain (QS ''a &amp; b'') = trimmed (QS ''a &amp; b'')"
    by (rule htmlToPlain_text)
  also have "\<dots> = QS ''a &amp; b''"
    by (simp add: trimmed_def QS_def isSpace_def)
  finally have 10: "htmlToPlain (QS ''a &amp; b'') = QS ''a &amp; b''" .
  have 11: "htmlToPlain (QS ''x<BR>y'') = QS ''x\<newline>\<newline>y''"
    by (simp add: htmlToPlain_def tags_stripped_def lines_collapsed_def QS_def tag_break_def
        trimmed_def isSpace_def toLower_def startsWith_def)
  have 12: "htmlToPlain (QS ''x<b>y</b>z'') = QS ''xyz''"
    by (simp add: htmlToPlain_def tags_stripped_def lines_collapsed_def QS_def tag_break_def
        trimmed_def isSpace_def toLower_def startsWith_def)
  have 13: "htmlToPlain (QS ''a\<newline>\<newline> \<newline>\<newline>\<newline>b'') = QS ''a\<newline>\<newline>\<newline>b''"
    by (simp add: htmlToPlain_def tags_stripped_def lines_collapsed_def QS_def tag_break_def
        trimmed_def isSpace_def toLower_def startsWith_def)
  from 1 2 3 4 5 6 7 8 9 10 11 12 13 show ?thesis by blast
qed

theorem htmlToPlain_properties_witness:
  "htmlToPlain (QS ''x<Br/>y'') = htmlToPlain (QS ''x\<newline>\<newline>y'')
   \<and> htmlToPlain (QS ''x< P id=1>y'') = htmlToPlain (QS ''x\<newline>\<newline>y'')
   \<and> htmlToPlain (QS ''x<span>y'') = htmlToPlain (QS ''xy'')
   \<and> htmlToPlain (QS ''x<q<b>y'') = htmlToPlain (QS ''x<b>y'')
   \<and> htmlToPlain (QS ''x<b'') = htmlToPlain (QS ''x'')
   \<and> htmlToPlain (QS ''a\<newline> \<newline>\<newline>\<newline>b '')
       = trimmed (join_lines [QS ''a'', [], [], QS ''b ''])
   \<and> \<not> isSpace (hd (htmlToPlain (QS ''x<BR>y''))) \<and> \<not> isSpace (last (htmlToPlain (QS ''x<BR>y'')))
   \<and> htmlToPlain (QS '' &lt;b&gt; '') = QS ''&lt;b&gt;''"
proof -
  let ?x = "QS ''x''" and ?y = "QS ''y''"
  have hx: "0x3C \<notin> set ?x" by (simp add: QS_def)
  have t1: "0x3C \<notin> set (QS ''Br/'') \<and> 0x3E \<notin> set (QS ''Br/'')"
    and t2: "0x3C \<notin> set (QS '' P id=1'') \<and> 0x3E \<notin> set (QS '' P id=1'')"
    and t3: "0x3C \<notin> set (QS ''span'') \<and> 0x3E \<notin> set (QS ''span'')"
    and t4: "0x3E \<notin> set (QS ''q'')" and t5: "0x3E \<notin> set (QS ''b'')"
    by (simp_all add: QS_def)
  have c1: "startsWith (toLower (trimmed (QS ''Br/''))) (QS ''br'')"
    and c2: "startsWith (toLower (trimmed (QS '' P id=1''))) (QS ''p'')"
    and c3: "\<not> startsWith (toLower (trimmed (QS ''span''))) (QS ''br'')"
      "\<not> startsWith (toLower (trimmed (QS ''span''))) (QS ''p'')"
      "\<not> startsWith (toLower (trimmed (QS ''span''))) (QS ''/p'')"
    by (simp_all add: QS_def trimmed_def isSpace_def toLower_def startsWith_def)
  have "htmlToPlain (?x @ 0x3C # QS ''Br/'' @ 0x3E # ?y)
      = htmlToPlain (?x @ (if startsWith (toLower (trimmed (QS ''Br/''))) (QS ''br'')
                          \<or> startsWith (toLower (trimmed (QS ''Br/''))) (QS ''p'')
                          \<or> startsWith (toLower (trimmed (QS ''Br/''))) (QS ''/p'')
                       then QS ''\<newline>\<newline>'' else []) @ ?y)"
    using htmlToPlain_properties [of "[]" ?x "QS ''Br/''" ?y "[]" "[]" "[]"] hx t1 by blast
  then have a: "htmlToPlain (?x @ 0x3C # QS ''Br/'' @ 0x3E # ?y)
      = htmlToPlain (?x @ QS ''\<newline>\<newline>'' @ ?y)"
    by (simp only: c1 simp_thms if_True)
  have "htmlToPlain (?x @ 0x3C # QS '' P id=1'' @ 0x3E # ?y)
      = htmlToPlain (?x @ (if startsWith (toLower (trimmed (QS '' P id=1''))) (QS ''br'')
                          \<or> startsWith (toLower (trimmed (QS '' P id=1''))) (QS ''p'')
                          \<or> startsWith (toLower (trimmed (QS '' P id=1''))) (QS ''/p'')
                       then QS ''\<newline>\<newline>'' else []) @ ?y)"
    using htmlToPlain_properties [of "[]" ?x "QS '' P id=1''" ?y "[]" "[]" "[]"] hx t2 by blast
  then have b: "htmlToPlain (?x @ 0x3C # QS '' P id=1'' @ 0x3E # ?y)
      = htmlToPlain (?x @ QS ''\<newline>\<newline>'' @ ?y)"
    by (simp only: c2 simp_thms if_True)
  have "htmlToPlain (?x @ 0x3C # QS ''span'' @ 0x3E # ?y)
      = htmlToPlain (?x @ (if startsWith (toLower (trimmed (QS ''span''))) (QS ''br'')
                          \<or> startsWith (toLower (trimmed (QS ''span''))) (QS ''p'')
                          \<or> startsWith (toLower (trimmed (QS ''span''))) (QS ''/p'')
                       then QS ''\<newline>\<newline>'' else []) @ ?y)"
    using htmlToPlain_properties [of "[]" ?x "QS ''span''" ?y "[]" "[]" "[]"] hx t3 by blast
  then have c: "htmlToPlain (?x @ 0x3C # QS ''span'' @ 0x3E # ?y) = htmlToPlain (?x @ [] @ ?y)"
    by (simp only: c3 simp_thms if_False)
  have d: "htmlToPlain (?x @ 0x3C # QS ''q'' @ 0x3C # QS ''b>y'') = htmlToPlain (?x @ 0x3C # QS ''b>y'')"
    using htmlToPlain_properties [of "[]" ?x "[]" "[]" "QS ''q''" "QS ''b>y''" "[]"] hx t4 by blast
  have e: "htmlToPlain (?x @ 0x3C # QS ''b'') = htmlToPlain ?x"
    using htmlToPlain_properties [of "[]" ?x "[]" "[]" "[]" "QS ''b''" "[]"] hx t5 by blast
  let ?s = "QS ''a\<newline> \<newline>\<newline>\<newline>b ''"
  have hs: "0x3C \<notin> set ?s" by (simp add: QS_def)
  have f: "htmlToPlain ?s = trimmed (join_lines (kept_lines (split_chr 0x0A ?s)))"
    using htmlToPlain_properties [of "[]" "[]" "[]" "[]" "[]" "[]" ?s] hs by blast
  have k: "kept_lines (split_chr 0x0A ?s) = [QS ''a'', [], [], QS ''b '']"
    by (simp add: kept_lines_def dropped_def QS_def blank_def trimmed_def isSpace_def upt_rec)
  have ne: "htmlToPlain (QS ''x<BR>y'') \<noteq> []"
    using htmlToPlain_properties [of "[]" "[]" "[]" "[]" "[]" "[]" "[]"] by (simp add: QS_def)
  have g: "\<not> isSpace (hd (htmlToPlain (QS ''x<BR>y''))) \<and> \<not> isSpace (last (htmlToPlain (QS ''x<BR>y'')))"
    using htmlToPlain_properties [of "QS ''x<BR>y''" "[]" "[]" "[]" "[]" "[]" "[]"] ne by blast
  let ?e = "QS '' &lt;b&gt; ''"
  have he: "0x3C \<notin> set ?e \<and> 0x0A \<notin> set ?e" by (simp add: QS_def)
  have "htmlToPlain ?e = trimmed ?e"
    using htmlToPlain_properties [of "[]" "[]" "[]" "[]" "[]" "[]" ?e] he by blast
  then have h: "htmlToPlain ?e = QS ''&lt;b&gt;''"
    by (simp add: trimmed_def QS_def isSpace_def)
  have 1: "htmlToPlain (QS ''x<Br/>y'') = htmlToPlain (QS ''x\<newline>\<newline>y'')"
    using a by (simp add: QS_def)
  have 2: "htmlToPlain (QS ''x< P id=1>y'') = htmlToPlain (QS ''x\<newline>\<newline>y'')"
    using b by (simp add: QS_def)
  have 3: "htmlToPlain (QS ''x<span>y'') = htmlToPlain (QS ''xy'')"
    using c by (simp add: QS_def)
  have 4: "htmlToPlain (QS ''x<q<b>y'') = htmlToPlain (QS ''x<b>y'')"
    using d by (simp add: QS_def)
  have 5: "htmlToPlain (QS ''x<b'') = htmlToPlain (QS ''x'')"
    using e by (simp add: QS_def)
  have 6: "htmlToPlain ?s = trimmed (join_lines [QS ''a'', [], [], QS ''b ''])"
    using f unfolding k .
  from 1 2 3 4 5 6 g h show ?thesis by blast
qed

section \<open>UTF-8 encoding and decoding\<close>

lemma unat_byte: "k < 256 \<Longrightarrow> unat (of_nat k :: byte) = k"
  by (simp add: unat_of_nat)

lemma decode_one_byte:
  "unat b < 0x80 \<Longrightarrow> utf8_decode (b # bs) = of_nat (unat b) # utf8_decode bs"
  by (simp add: word_less_nat_alt)

lemma decode_two_bytes:
  "unat b = 0xC0 + q \<Longrightarrow> 2 \<le> q \<Longrightarrow> q < 32 \<Longrightarrow> unat c = 0x80 + r \<Longrightarrow> r < 64 \<Longrightarrow>
   utf8_decode (b # c # bs) = of_nat (q * 64 + r) # utf8_decode bs"
  by (simp add: word_less_nat_alt word_le_nat_alt isContinuation_def)

lemma decode_three_bytes:
  "unat b = 0xE0 + q \<Longrightarrow> q < 16 \<Longrightarrow> unat c1 = 0x80 + r1 \<Longrightarrow> r1 < 64 \<Longrightarrow>
   unat c2 = 0x80 + r2 \<Longrightarrow> r2 < 64 \<Longrightarrow> 0x800 \<le> q * 4096 + r1 * 64 + r2 \<Longrightarrow>
   \<not> (0xD800 \<le> q * 4096 + r1 * 64 + r2 \<and> q * 4096 + r1 * 64 + r2 \<le> 0xDFFF) \<Longrightarrow>
   utf8_decode (b # c1 # c2 # bs) = of_nat (q * 4096 + r1 * 64 + r2) # utf8_decode bs"
  by (simp add: word_less_nat_alt word_le_nat_alt isContinuation_def Let_def)

lemma decode_four_bytes:
  "unat b = 0xF0 + q \<Longrightarrow> q < 5 \<Longrightarrow> unat c1 = 0x80 + r1 \<Longrightarrow> r1 < 64 \<Longrightarrow>
   unat c2 = 0x80 + r2 \<Longrightarrow> r2 < 64 \<Longrightarrow> unat c3 = 0x80 + r3 \<Longrightarrow> r3 < 64 \<Longrightarrow>
   0x10000 \<le> q * 262144 + r1 * 4096 + r2 * 64 + r3 \<Longrightarrow>
   q * 262144 + r1 * 4096 + r2 * 64 + r3 \<le> 0x10FFFF \<Longrightarrow>
   utf8_decode (b # c1 # c2 # c3 # bs)
     = utf16_units (q * 262144 + r1 * 4096 + r2 * 64 + r3) @ utf8_decode bs"
  by (simp add: word_less_nat_alt word_le_nat_alt isContinuation_def Let_def)


lemma decode_encode_ascii:
  assumes "n < 0x80"
  shows "utf8_decode (utf8_encode n @ bs) = of_nat n # utf8_decode bs"
proof -
  define b where "b = (of_nat n :: byte)"
  have u: "unat b = n" unfolding b_def using assms by (intro unat_byte) simp
  have enc: "utf8_encode n = [b]" using assms by (simp add: utf8_encode_def b_def)
  have "utf8_decode (b # bs) = of_nat (unat b) # utf8_decode bs"
    using assms u by (intro decode_one_byte) simp
  then show ?thesis unfolding enc u by simp
qed

lemma radix_64:
  fixes n :: nat
  shows "n div 64 * 64 + n mod 64 = n"
    and "n div 4096 * 4096 + n div 64 mod 64 * 64 + n mod 64 = n"
    and "n div 262144 * 262144 + n div 4096 mod 64 * 4096 + n div 64 mod 64 * 64 + n mod 64 = n"
proof -
  define a b c where "a = n div 64" and "b = n div 4096" and "c = n div 262144"
  have 1: "a * 64 + n mod 64 = n" by (simp add: a_def)
  have "b = a div 64" by (simp add: a_def b_def div_mult2_eq [symmetric])
  then have 2: "b * 64 + a mod 64 = a" by simp
  have "c = b div 64" by (simp add: b_def c_def div_mult2_eq [symmetric])
  then have 3: "c * 64 + b mod 64 = b" by simp
  show "n div 64 * 64 + n mod 64 = n" by simp
  show "n div 4096 * 4096 + n div 64 mod 64 * 64 + n mod 64 = n"
    using 1 2 unfolding a_def [symmetric] b_def [symmetric] by linarith
  show "n div 262144 * 262144 + n div 4096 mod 64 * 4096 + n div 64 mod 64 * 64 + n mod 64 = n"
    using 1 2 3 unfolding a_def [symmetric] b_def [symmetric] c_def [symmetric] by linarith
qed

lemma decode_encode_two:
  assumes "0x80 \<le> n" "n < 0x800"
  shows "utf8_decode (utf8_encode n @ bs) = of_nat n # utf8_decode bs"
proof -
  define q r where "q = n div 64" and "r = n mod 64"
  have n: "q * 64 + r = n" by (simp add: q_def r_def)
  have "128 div 64 \<le> n div 64" using assms(1) by (rule div_le_mono)
  then have q1: "2 \<le> q" by (simp add: q_def)
  have q2: "q < 32" unfolding q_def using assms(2) by (intro less_mult_imp_div_less) simp
  have r: "r < 64" by (simp add: r_def)
  define b c where "b = (of_nat (0xC0 + q) :: byte)" and "c = (of_nat (0x80 + r) :: byte)"
  have ub: "unat b = 0xC0 + q" unfolding b_def using q2 by (intro unat_byte) simp
  have uc: "unat c = 0x80 + r" unfolding c_def using r by (intro unat_byte) simp
  have enc: "utf8_encode n = [b, c]"
    using assms by (simp add: utf8_encode_def b_def c_def q_def r_def)
  have "utf8_decode (b # c # bs) = of_nat (q * 64 + r) # utf8_decode bs"
    using ub q1 q2 uc r by (rule decode_two_bytes)
  then show ?thesis unfolding enc n by simp
qed

lemma decode_encode_three:
  assumes "0x800 \<le> n" "n < 0x10000" "\<not> (0xD800 \<le> n \<and> n \<le> 0xDFFF)"
  shows "utf8_decode (utf8_encode n @ bs) = of_nat n # utf8_decode bs"
proof -
  define q r1 r2 where "q = n div 4096" and "r1 = n div 64 mod 64" and "r2 = n mod 64"
  have n: "q * 4096 + r1 * 64 + r2 = n" unfolding q_def r1_def r2_def by (rule radix_64)
  have q: "q < 16" unfolding q_def using assms(2) by (intro less_mult_imp_div_less) simp
  have r1: "r1 < 64" and r2: "r2 < 64" by (simp_all add: r1_def r2_def)
  define b c1 c2 where "b = (of_nat (0xE0 + q) :: byte)"
    and "c1 = (of_nat (0x80 + r1) :: byte)" and "c2 = (of_nat (0x80 + r2) :: byte)"
  have ub: "unat b = 0xE0 + q" unfolding b_def using q by (intro unat_byte) simp
  have u1: "unat c1 = 0x80 + r1" unfolding c1_def using r1 by (intro unat_byte) simp
  have u2: "unat c2 = 0x80 + r2" unfolding c2_def using r2 by (intro unat_byte) simp
  have enc: "utf8_encode n = [b, c1, c2]"
    using assms by (simp add: utf8_encode_def b_def c1_def c2_def q_def r1_def r2_def)
  have "utf8_decode (b # c1 # c2 # bs) = of_nat (q * 4096 + r1 * 64 + r2) # utf8_decode bs"
    using ub q u1 r1 u2 r2 assms(1) assms(3) unfolding n [symmetric] by (rule decode_three_bytes)
  then show ?thesis unfolding enc n by simp
qed

lemma decode_encode_four:
  assumes "0x10000 \<le> n" "n \<le> 0x10FFFF"
  shows "utf8_decode (utf8_encode n @ bs) = utf16_units n @ utf8_decode bs"
proof -
  define q r1 r2 r3 where "q = n div 262144" and "r1 = n div 4096 mod 64"
    and "r2 = n div 64 mod 64" and "r3 = n mod 64"
  have n: "q * 262144 + r1 * 4096 + r2 * 64 + r3 = n"
    unfolding q_def r1_def r2_def r3_def by (rule radix_64)
  have q: "q < 5" unfolding q_def using assms(2) by (intro less_mult_imp_div_less) simp
  have r1: "r1 < 64" and r2: "r2 < 64" and r3: "r3 < 64"
    by (simp_all add: r1_def r2_def r3_def)
  define b c1 c2 c3 where "b = (of_nat (0xF0 + q) :: byte)"
    and "c1 = (of_nat (0x80 + r1) :: byte)" and "c2 = (of_nat (0x80 + r2) :: byte)"
    and "c3 = (of_nat (0x80 + r3) :: byte)"
  have ub: "unat b = 0xF0 + q" unfolding b_def using q by (intro unat_byte) simp
  have u1: "unat c1 = 0x80 + r1" unfolding c1_def using r1 by (intro unat_byte) simp
  have u2: "unat c2 = 0x80 + r2" unfolding c2_def using r2 by (intro unat_byte) simp
  have u3: "unat c3 = 0x80 + r3" unfolding c3_def using r3 by (intro unat_byte) simp
  have enc: "utf8_encode n = [b, c1, c2, c3]"
    using assms by (simp add: utf8_encode_def b_def c1_def c2_def c3_def q_def r1_def r2_def r3_def)
  have "utf8_decode (b # c1 # c2 # c3 # bs)
      = utf16_units (q * 262144 + r1 * 4096 + r2 * 64 + r3) @ utf8_decode bs"
    using ub q u1 r1 u2 r2 u3 r3 assms unfolding n [symmetric] by (rule decode_four_bytes)
  then show ?thesis unfolding enc n by simp
qed

lemma decode_encode_bmp:
  assumes "n < 0x10000" "\<not> (0xD800 \<le> n \<and> n \<le> 0xDFFF)"
  shows "utf8_decode (utf8_encode n @ bs) = of_nat n # utf8_decode bs"
proof -
  consider "n < 0x80" | "0x80 \<le> n" "n < 0x800" | "0x800 \<le> n" by linarith
  then show ?thesis
  proof cases
    case 1
    then show ?thesis by (rule decode_encode_ascii)
  next
    case 2
    then show ?thesis by (rule decode_encode_two)
  next
    case 3
    then show ?thesis using assms by (rule decode_encode_three)
  qed
qed


lemma surrogate_unat:
  "isHighSurrogate u \<longleftrightarrow> 0xD800 \<le> unat u \<and> unat u \<le> 0xDBFF"
  "isLowSurrogate u \<longleftrightarrow> 0xDC00 \<le> unat u \<and> unat u \<le> 0xDFFF"
  by (simp_all add: isHighSurrogate_def isLowSurrogate_def word_le_nat_alt)

lemma unit_of_unat: "of_nat (unat u) = (u :: qchar)"
  by simp

lemma pair_units:
  assumes "isHighSurrogate u" "isLowSurrogate l"
  shows "utf16_units (0x10000 + (unat u - 0xD800) * 1024 + (unat l - 0xDC00)) = [u, l]"
proof -
  define h lo where "h = unat u - 0xD800" and "lo = unat l - 0xDC00"
  have bu: "0xD800 \<le> unat u" "unat u \<le> 0xDBFF" and bl: "0xDC00 \<le> unat l" "unat l \<le> 0xDFFF"
    using assms by (simp_all add: surrogate_unat)
  have hu: "0xD800 + h = unat u" using bu unfolding h_def by linarith
  have ll: "0xDC00 + lo = unat l" using bl unfolding lo_def by linarith
  have lo: "lo < 1024" using bl unfolding lo_def by linarith
  have d: "(h * 1024 + lo) div 1024 = h" and m: "(h * 1024 + lo) mod 1024 = lo"
    using lo by simp_all
  have "utf16_units (0x10000 + h * 1024 + lo)
      = [of_nat (0xD800 + (h * 1024 + lo) div 1024), of_nat (0xDC00 + (h * 1024 + lo) mod 1024)]"
    by (simp add: utf16_units_def)
  also have "\<dots> = [of_nat (unat u), of_nat (unat l)]"
    unfolding d m hu ll ..
  finally show ?thesis unfolding h_def lo_def by (simp only: unit_of_unat)
qed

lemma pair_range:
  assumes "isHighSurrogate u" "isLowSurrogate l"
  shows "0x10000 \<le> 0x10000 + (unat u - 0xD800) * 1024 + (unat l - 0xDC00)"
    and "0x10000 + (unat u - 0xD800) * 1024 + (unat l - 0xDC00) \<le> 0x10FFFF"
proof -
  have bu: "unat u \<le> 0xDBFF" and bl: "unat l \<le> 0xDFFF"
    using assms by (simp_all add: surrogate_unat)
  have "unat u - 0xD800 \<le> 1023" using bu by linarith
  moreover have "unat l - 0xDC00 \<le> 1023" using bl by linarith
  ultimately have "(unat u - 0xD800) * 1024 + (unat l - 0xDC00) \<le> 1023 * 1024 + 1023"
    by (intro add_mono mult_le_mono1)
  then show "0x10000 + (unat u - 0xD800) * 1024 + (unat l - 0xDC00) \<le> 0x10FFFF" by simp
  show "0x10000 \<le> 0x10000 + (unat u - 0xD800) * 1024 + (unat l - 0xDC00)" by simp
qed

lemma decode_unit:
  assumes "\<not> isHighSurrogate u" "\<not> isLowSurrogate u"
  shows "utf8_decode (utf8_encode (unat u) @ bs) = u # utf8_decode bs"
proof -
  have "unat u < 2 ^ LENGTH(16)" by (rule unsigned_less)
  then have 1: "unat u < 0x10000" by simp
  have 2: "\<not> (0xD800 \<le> unat u \<and> unat u \<le> 0xDFFF)"
    using assms by (auto simp: surrogate_unat)
  show ?thesis using decode_encode_bmp [OF 1 2, of bs] by (simp only: unit_of_unat)
qed

lemma decode_pair:
  assumes "isHighSurrogate u" "isLowSurrogate l"
  shows "utf8_decode (utf8_encode (0x10000 + (unat u - 0xD800) * 1024 + (unat l - 0xDC00)) @ bs)
         = u # l # utf8_decode bs"
  using decode_encode_four [OF pair_range [OF assms], of bs] pair_units [OF assms]
  by simp

lemma decode_toUtf8: "wellFormed t \<Longrightarrow> utf8_decode (toUtf8 t) = t"
proof (induction t rule: toUtf8.induct)
  case 1
  show ?case by simp
next
  case (2 u)
  then show ?case using decode_unit [of u "[]"] by simp
next
  case (3 u l us)
  show ?case
  proof (cases "isHighSurrogate u")
    case True
    then have l: "isLowSurrogate l" and w: "wellFormed us" using "3.prems" by simp_all
    show ?thesis using True l "3.IH"(1) [OF True l w] decode_pair [OF True l, of "toUtf8 us"]
      by simp
  next
    case False
    then have n: "\<not> isLowSurrogate u" and w: "wellFormed (l # us)" using "3.prems" by simp_all
    show ?thesis
      using False n "3.IH"(4) [OF False n w] decode_unit [OF False n, of "toUtf8 (l # us)"]
      by simp
  qed
qed

lemma decode_bom: "utf8_decode (0xEF # 0xBB # 0xBF # bs) = 0xFEFF # utf8_decode bs"
  by (simp add: isContinuation_def Let_def)

lemma toUtf8_no_bom:
  assumes "wellFormed t" "\<not> startsWith t [0xFEFF]"
  shows "take 3 (toUtf8 t) \<noteq> [0xEF, 0xBB, 0xBF]"
proof
  assume b: "take 3 (toUtf8 t) = [0xEF, 0xBB, 0xBF]"
  have "toUtf8 t = take 3 (toUtf8 t) @ drop 3 (toUtf8 t)" by simp
  then have "toUtf8 t = 0xEF # 0xBB # 0xBF # drop 3 (toUtf8 t)" unfolding b by simp
  then have "utf8_decode (toUtf8 t) = utf8_decode (0xEF # 0xBB # 0xBF # drop 3 (toUtf8 t))"
    by (rule arg_cong)
  also have "\<dots> = 0xFEFF # utf8_decode (drop 3 (toUtf8 t))"
    by (rule decode_bom)
  finally have "t = 0xFEFF # utf8_decode (drop 3 (toUtf8 t))"
    by (simp only: decode_toUtf8 [OF assms(1)])
  then have "startsWith t [0xFEFF]"
    by (metis startsWith_simps(1,3))
  then show False using assms(2) by simp
qed

lemma fromUtf8_toUtf8:
  "wellFormed t \<Longrightarrow> \<not> startsWith t [0xFEFF] \<Longrightarrow> fromUtf8 (toUtf8 t) = t"
  by (simp add: fromUtf8_def toUtf8_no_bom decode_toUtf8)


section \<open>Round trips of the raw and the plain strategy: claims C10 and C6\<close>

lemma read_after_write:
  "can_read fs path \<Longrightarrow> read_file (write_file fs path bytes) path = Some bytes"
  by (simp add: read_file_def write_file_def)

text \<open>
  Claim C10 says that the raw strategy returns every text exactly. On a disk where the
  path can be written and read, the text U+FEFF "a" comes back as "a": its encoding begins
  with the bytes EF BB BF, which the decoder takes for a byte order mark and skips. The
  text made of the lone surrogate U+D800, which UTF-8 cannot encode, comes back as "?".
\<close>

theorem raw_roundtrip_fails:
  "can_write (demo_disk True) (QS ''/d/f.bin'') \<and> can_read (demo_disk True) (QS ''/d/f.bin'')
   \<and> BINLoader_load (snd (BINSaver_save (demo_disk True) (QS ''/d/f.bin'') [0xFEFF, 0x61]))
         (QS ''/d/f.bin'') = [0x61]
   \<and> BINLoader_load (snd (BINSaver_save (demo_disk True) (QS ''/d/f.bin'') [0xFEFF, 0x61]))
         (QS ''/d/f.bin'') \<noteq> [0xFEFF, 0x61]
   \<and> BINLoader_load (snd (BINSaver_save (demo_disk True) (QS ''/d/f.bin'') [0xD800]))
         (QS ''/d/f.bin'') = [0x3F]
   \<and> BINLoader_load (snd (BINSaver_save (demo_disk True) (QS ''/d/f.bin'') [0xD800]))
         (QS ''/d/f.bin'') \<noteq> [0xD800]"
  by (simp add: demo_disk_def BINSaver_save_def BINLoader_load_def read_file_def write_file_def
      fromUtf8_def isHighSurrogate_def isLowSurrogate_def utf8_encode_def isContinuation_def
      Let_def)

text \<open>
  Claim C10, amended. For every text that is well-formed UTF-16 and does not begin with
  U+FEFF, and every path that can be written and then read, saving the text with the raw
  strategy succeeds and loading from the same path returns exactly the text.
\<close>

theorem raw_roundtrip:
  "can_write fs path \<and> can_read fs path \<and> wellFormed text \<and> \<not> startsWith text [0xFEFF] \<longrightarrow>
     fst (BINSaver_save fs path text)
     \<and> BINLoader_load (snd (BINSaver_save fs path text)) path = text"
  by (simp add: BINSaver_save_def BINLoader_load_def read_after_write fromUtf8_toUtf8)

theorem raw_roundtrip_witness:
  "can_write (demo_disk True) (QS ''/d/f.bin'') \<and> can_read (demo_disk True) (QS ''/d/f.bin'')
   \<and> wellFormed [0x61, 0xE9, 0x0D, 0x0A, 0x20AC, 0xD83D, 0xDE00]
   \<and> \<not> startsWith [0x61, 0xE9, 0x0D, 0x0A, 0x20AC, 0xD83D, 0xDE00] [0xFEFF]
   \<and> fst (BINSaver_save (demo_disk True) (QS ''/d/f.bin'')
            [0x61, 0xE9, 0x0D, 0x0A, 0x20AC, 0xD83D, 0xDE00])
   \<and> BINLoader_load (snd (BINSaver_save (demo_disk True) (QS ''/d/f.bin'')
                           [0x61, 0xE9, 0x0D, 0x0A, 0x20AC, 0xD83D, 0xDE00])) (QS ''/d/f.bin'')
       = [0x61, 0xE9, 0x0D, 0x0A, 0x20AC, 0xD83D, 0xDE00]"
proof -
  let ?t = "[0x61, 0xE9, 0x0D, 0x0A, 0x20AC, 0xD83D, 0xDE00] :: qstring"
  let ?p = "QS ''/d/f.bin''"
  have h: "can_write (demo_disk True) ?p \<and> can_read (demo_disk True) ?p
      \<and> wellFormed ?t \<and> \<not> startsWith ?t [0xFEFF]"
    by (simp add: demo_disk_def isHighSurrogate_def isLowSurrogate_def startsWith_def)
  with raw_roundtrip [of "demo_disk True" ?p ?t] show ?thesis by blast
qed

lemma filter_no_cr: "0x0D \<notin> set t \<Longrightarrow> filter (\<lambda>c. c \<noteq> 0x0D) t = t"
  by (induction t) auto

text \<open>
  Claim C6 says that the plain strategy returns every text exactly. Both files are opened
  in text mode, and reading in text mode removes the carriage returns: on a disk where
  the path can be written and read, "a\\r\\nb" comes back as "a\\nb". As for the raw
  strategy, U+FEFF "a" comes back as "a" and a lone surrogate as "?".
\<close>

theorem plain_roundtrip_fails:
  "can_write (demo_disk True) (QS ''/d/f.txt'') \<and> can_read (demo_disk True) (QS ''/d/f.txt'')
   \<and> TXTLoader_load (snd (TXTSaver_save (demo_disk True) (QS ''/d/f.txt'') [0x61, 0x0D, 0x0A, 0x62]))
         (QS ''/d/f.txt'') = [0x61, 0x0A, 0x62]
   \<and> TXTLoader_load (snd (TXTSaver_save (demo_disk True) (QS ''/d/f.txt'') [0x61, 0x0D, 0x0A, 0x62]))
         (QS ''/d/f.txt'') \<noteq> [0x61, 0x0D, 0x0A, 0x62]
   \<and> TXTLoader_load (snd (TXTSaver_save (demo_disk True) (QS ''/d/f.txt'') [0xFEFF, 0x61]))
         (QS ''/d/f.txt'') = [0x61]
   \<and> TXTLoader_load (snd (TXTSaver_save (demo_disk True) (QS ''/d/f.txt'') [0xD800]))
         (QS ''/d/f.txt'') = [0x3F]"
  by (simp add: demo_disk_def TXTSaver_save_def TXTLoader_load_def read_file_def write_file_def
      QTextStream_write_def QTextStream_readAll_def fromUtf8_def isHighSurrogate_def
      isLowSurrogate_def utf8_encode_def isContinuation_def Let_def)

text \<open>
  Claim C6, amended. For every text that is well-formed UTF-16, does not begin with
  U+FEFF and holds no carriage return, and every path that can be written and then read,
  saving the text with the plain strategy succeeds and loading from the same path returns
  exactly the text.
\<close>

theorem plain_roundtrip:
  "can_write fs path \<and> can_read fs path \<and> wellFormed text \<and> \<not> startsWith text [0xFEFF]
     \<and> 0x0D \<notin> set text \<longrightarrow>
     fst (TXTSaver_save fs path text)
     \<and> TXTLoader_load (snd (TXTSaver_save fs path text)) path = text"
  by (simp add: TXTSaver_save_def TXTLoader_load_def read_after_write fromUtf8_toUtf8
      QTextStream_write_def QTextStream_readAll_def filter_no_cr)

theorem plain_roundtrip_witness:
  "can_write (demo_disk True) (QS ''/d/f.txt'') \<and> can_read (demo_disk True) (QS ''/d/f.txt'')
   \<and> wellFormed [0x61, 0xE9, 0x0A, 0x20AC, 0xD83D, 0xDE00]
   \<and> \<not> startsWith [0x61, 0xE9, 0x0A, 0x20AC, 0xD83D, 0xDE00] [0xFEFF]
   \<and> 0x0D \<notin> set [0x61, 0xE9, 0x0A, 0x20AC, 0xD83D, 0xDE00 :: qchar]
   \<and> fst (TXTSaver_save (demo_disk True) (QS ''/d/f.txt'')
            [0x61, 0xE9, 0x0A, 0x20AC, 0xD83D, 0xDE00])
   \<and> TXTLoader_load (snd (TXTSaver_save (demo_disk True) (QS ''/d/f.txt'')
                           [0x61, 0xE9, 0x0A, 0x20AC, 0xD83D, 0xDE00])) (QS ''/d/f.txt'')
       = [0x61, 0xE9, 0x0A, 0x20AC, 0xD83D, 0xDE00]"
proof -
  let ?t = "[0x61, 0xE9, 0x0A, 0x20AC, 0xD83D, 0xDE00] :: qstring"
  let ?p = "QS ''/d/f.txt''"
  have h: "can_write (demo_disk True) ?p \<and> can_read (demo_disk True) ?p
      \<and> wellFormed ?t \<and> \<not> startsWith ?t [0xFEFF] \<and> 0x0D \<notin> set ?t"
    by (simp add: demo_disk_def isHighSurrogate_def isLowSurrogate_def startsWith_def)
  with plain_roundtrip [of "demo_disk True" ?p ?t] show ?thesis by blast
qed

section \<open>The markup saver's paragraphs: claim C9\<close>

lemma NN: "QS ''\<newline>\<newline>'' = [0x0A, 0x0A]"
  by (simp add: QS_def)

lemma split_from_none:
  "\<not> occurs [0x0A, 0x0A] s \<Longrightarrow> split_from [0x0A, 0x0A] cur s = [cur @ s]"
  by (induction s arbitrary: cur) simp_all

lemma split_from_first:
  "\<not> occurs [0x0A, 0x0A] (p @ [0x0A]) \<Longrightarrow>
   split_from [0x0A, 0x0A] cur (p @ [0x0A, 0x0A] @ rest) = (cur @ p) # split_from [0x0A, 0x0A] [] rest"
proof (induction p arbitrary: cur)
  case Nil
  show ?case by (simp add: startsWith_simps)
next
  case (Cons c p)
  have n: "\<not> startsWith (c # p @ [0x0A]) [0x0A, 0x0A]" and r: "\<not> occurs [0x0A, 0x0A] (p @ [0x0A])"
    using Cons.prems by simp_all
  have "\<not> startsWith (c # p @ [0x0A, 0x0A] @ rest) [0x0A, 0x0A]"
    using n by (cases p) (simp_all add: startsWith_simps)
  then show ?case using Cons.IH [OF r, of "cur @ [c]"] by simp
qed

lemma split_skip_empty_none:
  "\<not> occurs (QS ''\<newline>\<newline>'') s \<Longrightarrow>
   split_skip_empty (QS ''\<newline>\<newline>'') s = (if s = [] then [] else [s])"
  by (simp add: split_skip_empty_def NN split_from_none)

lemma split_skip_empty_first:
  "\<not> occurs (QS ''\<newline>\<newline>'') (p @ [0x0A]) \<Longrightarrow>
   split_skip_empty (QS ''\<newline>\<newline>'') (p @ QS ''\<newline>\<newline>'' @ rest)
     = (if p = [] then [] else [p]) @ split_skip_empty (QS ''\<newline>\<newline>'') rest"
  using split_from_first [of p "[]" rest]
  by (simp add: split_skip_empty_def NN)

lemma count_skip:
  "c \<noteq> 0x3C \<Longrightarrow> count_occurrences (QS ''<p>'') (c # s) = count_occurrences (QS ''<p>'') s"
  by (simp add: QS_def startsWith_simps)

lemma count_text:
  "0x3C \<notin> set s \<Longrightarrow> count_occurrences (QS ''<p>'') (s @ t) = count_occurrences (QS ''<p>'') t"
  by (induction s) (simp_all add: count_skip del: count_occurrences.simps)

lemma count_written_paragraphs:
  "count_occurrences (QS ''<p>'')
     (concat (map (\<lambda>p. QS ''<p>'' @ toHtmlEscaped p @ QS ''</p>\<newline>'') ps) @ QS ''\<newline></body></html>\<newline>'')
   = length ps"
proof (induction ps)
  case Nil
  show ?case by (simp add: QS_def startsWith_simps)
next
  case (Cons p ps)
  let ?X = "concat (map (\<lambda>p. QS ''<p>'' @ toHtmlEscaped p @ QS ''</p>\<newline>'') ps)
              @ QS ''\<newline></body></html>\<newline>''"
  have "count_occurrences (QS ''<p>'') (QS ''<p>'' @ (toHtmlEscaped p @ (QS ''</p>\<newline>'' @ ?X)))
        = 1 + count_occurrences (QS ''<p>'') (toHtmlEscaped p @ (QS ''</p>\<newline>'' @ ?X))"
    by (simp add: QS_def startsWith_simps)
  also have "count_occurrences (QS ''<p>'') (toHtmlEscaped p @ (QS ''</p>\<newline>'' @ ?X))
        = count_occurrences (QS ''<p>'') (QS ''</p>\<newline>'' @ ?X)"
    using escaped_no_lt by (rule count_text)
  also have "\<dots> = count_occurrences (QS ''<p>'') ?X"
    by (simp add: QS_def startsWith_simps)
  finally show ?case using Cons.IH by simp
qed

lemma count_saved:
  "count_occurrences (QS ''<p>'') (HTMLSaver_text t)
   = length (split_skip_empty (QS ''\<newline>\<newline>'') t)"
proof -
  let ?X = "concat (map (\<lambda>p. QS ''<p>'' @ toHtmlEscaped p @ QS ''</p>\<newline>'')
                     (split_skip_empty (QS ''\<newline>\<newline>'') t))
              @ QS ''\<newline></body></html>\<newline>''"
  have "count_occurrences (QS ''<p>'') (QS ''<html><body>\<newline>'' @ ?X)
        = count_occurrences (QS ''<p>'') ?X"
    by (simp add: QS_def startsWith_simps)
  then show ?thesis
    by (simp add: HTMLSaver_text_def count_written_paragraphs)
qed


text \<open>
  Claim C9. The markup saver cuts the text at the exact two-character sequence "\\n\\n",
  found from left to right, and drops the empty pieces: a text without the sequence is one
  piece (none when it is empty), and a text whose first occurrence of the sequence stands
  behind \<open>p\<close> gives the piece \<open>p\<close> (none when \<open>p\<close> is empty) and then the pieces of what
  follows the sequence. It writes one paragraph element for each piece, so the number of
  \<^verbatim>\<open><p>\<close> tags in the written text is the number of pieces. This is not the blank-line
  rule of the paragraph counter: for "a\\n \\nb", whose middle line holds one space,
  \<^verbatim>\<open>countParagraphs\<close> returns 2, but the saver finds one piece and writes one paragraph
  element. For "a\\n\\n\\nb\\n\\n\\n\\nc\\n\\n" the pieces are "a", "\\nb" and "c".
\<close>

theorem markup_partition_differs:
  "(\<not> occurs (QS ''\<newline>\<newline>'') s \<longrightarrow>
      split_skip_empty (QS ''\<newline>\<newline>'') s = (if s = [] then [] else [s]))
   \<and> (\<not> occurs (QS ''\<newline>\<newline>'') (p @ [0x0A]) \<longrightarrow>
      split_skip_empty (QS ''\<newline>\<newline>'') (p @ QS ''\<newline>\<newline>'' @ rest)
        = (if p = [] then [] else [p]) @ split_skip_empty (QS ''\<newline>\<newline>'') rest)
   \<and> HTMLSaver_text t =
        QS ''<html><body>\<newline>''
        @ concat (map (\<lambda>p. QS ''<p>'' @ toHtmlEscaped p @ QS ''</p>\<newline>'')
                    (split_skip_empty (QS ''\<newline>\<newline>'') t))
        @ QS ''\<newline></body></html>\<newline>''
   \<and> count_occurrences (QS ''<p>'') (HTMLSaver_text t)
        = length (split_skip_empty (QS ''\<newline>\<newline>'') t)
   \<and> countParagraphs (QS ''a\<newline> \<newline>b'') = 2
   \<and> split_skip_empty (QS ''\<newline>\<newline>'') (QS ''a\<newline> \<newline>b'') = [QS ''a\<newline> \<newline>b'']
   \<and> count_occurrences (QS ''<p>'') (HTMLSaver_text (QS ''a\<newline> \<newline>b'')) = 1
   \<and> HTMLSaver_text (QS ''a\<newline> \<newline>b'')
       = QS ''<html><body>\<newline><p>a\<newline> \<newline>b</p>\<newline>\<newline></body></html>\<newline>''
   \<and> split_skip_empty (QS ''\<newline>\<newline>'') (QS ''a\<newline>\<newline>\<newline>b\<newline>\<newline>\<newline>\<newline>c\<newline>\<newline>'')
       = [QS ''a'', QS ''\<newline>b'', QS ''c'']
   \<and> HTMLSaver_text (QS ''a\<newline>\<newline>\<newline>b\<newline>\<newline>\<newline>\<newline>c\<newline>\<newline>'')
       = QS ''<html><body>\<newline><p>a</p>\<newline><p>\<newline>b</p>\<newline><p>c</p>\<newline>\<newline></body></html>\<newline>''"
proof -
  have 1: "\<not> occurs (QS ''\<newline>\<newline>'') s \<longrightarrow>
      split_skip_empty (QS ''\<newline>\<newline>'') s = (if s = [] then [] else [s])"
    using split_skip_empty_none by blast
  have 2: "\<not> occurs (QS ''\<newline>\<newline>'') (p @ [0x0A]) \<longrightarrow>
      split_skip_empty (QS ''\<newline>\<newline>'') (p @ QS ''\<newline>\<newline>'' @ rest)
        = (if p = [] then [] else [p]) @ split_skip_empty (QS ''\<newline>\<newline>'') rest"
    using split_skip_empty_first by blast
  have 3: "HTMLSaver_text t =
        QS ''<html><body>\<newline>''
        @ concat (map (\<lambda>p. QS ''<p>'' @ toHtmlEscaped p @ QS ''</p>\<newline>'')
                    (split_skip_empty (QS ''\<newline>\<newline>'') t))
        @ QS ''\<newline></body></html>\<newline>''"
    by (simp add: HTMLSaver_text_def)
  have 4: "count_occurrences (QS ''<p>'') (HTMLSaver_text t)
        = length (split_skip_empty (QS ''\<newline>\<newline>'') t)"
    by (rule count_saved)
  have 5: "countParagraphs (QS ''a\<newline> \<newline>b'') = 2"
    by (simp add: countParagraphs_def QS_def para_step_def trimmed_def isSpace_def)
  have 6: "split_skip_empty (QS ''\<newline>\<newline>'') (QS ''a\<newline> \<newline>b'') = [QS ''a\<newline> \<newline>b'']"
    by (simp add: split_skip_empty_def startsWith_def QS_def)
  have 7: "count_occurrences (QS ''<p>'') (HTMLSaver_text (QS ''a\<newline> \<newline>b'')) = 1"
    unfolding count_saved 6 by simp
  have 8: "HTMLSaver_text (QS ''a\<newline> \<newline>b'')
       = QS ''<html><body>\<newline><p>a\<newline> \<newline>b</p>\<newline>\<newline></body></html>\<newline>''"
    unfolding HTMLSaver_text_def 6 by (simp add: QS_def toHtmlEscaped_def escape_chr_def)
  have 9: "split_skip_empty (QS ''\<newline>\<newline>'') (QS ''a\<newline>\<newline>\<newline>b\<newline>\<newline>\<newline>\<newline>c\<newline>\<newline>'')
       = [QS ''a'', QS ''\<newline>b'', QS ''c'']"
    by (simp add: split_skip_empty_def startsWith_def QS_def)
  have 10: "HTMLSaver_text (QS ''a\<newline>\<newline>\<newline>b\<newline>\<newline>\<newline>\<newline>c\<newline>\<newline>'')
       = QS ''<html><body>\<newline><p>a</p>\<newline><p>\<newline>b</p>\<newline><p>c</p>\<newline>\<newline></body></html>\<newline>''"
    unfolding HTMLSaver_text_def 9 by (simp add: QS_def toHtmlEscaped_def escape_chr_def)
  from 1 2 3 4 5 6 7 8 9 10 show ?thesis by blast
qed

theorem markup_partition_differs_witness:
  "split_skip_empty (QS ''\<newline>\<newline>'') (QS ''a\<newline>b'') = [QS ''a\<newline>b'']
   \<and> split_skip_empty (QS ''\<newline>\<newline>'') (QS ''a\<newline>\<newline>\<newline>b'')
       = [QS ''a''] @ split_skip_empty (QS ''\<newline>\<newline>'') (QS ''\<newline>b'')
   \<and> split_skip_empty (QS ''\<newline>\<newline>'') (QS ''\<newline>\<newline>b'')
       = split_skip_empty (QS ''\<newline>\<newline>'') (QS ''b'')"
proof -
  have h1: "\<not> occurs (QS ''\<newline>\<newline>'') (QS ''a\<newline>b'')"
    and h2: "\<not> occurs (QS ''\<newline>\<newline>'') (QS ''a'' @ [0x0A])"
    and h3: "\<not> occurs (QS ''\<newline>\<newline>'') ([] @ [0x0A])"
    by (simp_all add: QS_def startsWith_def)
  have n: "QS ''a\<newline>b'' \<noteq> []" "QS ''a'' \<noteq> []" by (simp_all add: QS_def)
  have "split_skip_empty (QS ''\<newline>\<newline>'') (QS ''a\<newline>b'')
      = (if QS ''a\<newline>b'' = [] then [] else [QS ''a\<newline>b''])"
    using markup_partition_differs [of "QS ''a\<newline>b''" "[]" "[]" "[]"] h1 by blast
  then have a: "split_skip_empty (QS ''\<newline>\<newline>'') (QS ''a\<newline>b'') = [QS ''a\<newline>b'']"
    by (simp only: n if_False)
  have "split_skip_empty (QS ''\<newline>\<newline>'') (QS ''a'' @ QS ''\<newline>\<newline>'' @ QS ''\<newline>b'')
      = (if QS ''a'' = [] then [] else [QS ''a'']) @ split_skip_empty (QS ''\<newline>\<newline>'') (QS ''\<newline>b'')"
    using markup_partition_differs [of "[]" "QS ''a''" "QS ''\<newline>b''" "[]"] h2 by blast
  then have b: "split_skip_empty (QS ''\<newline>\<newline>'') (QS ''a\<newline>\<newline>\<newline>b'')
       = [QS ''a''] @ split_skip_empty (QS ''\<newline>\<newline>'') (QS ''\<newline>b'')"
    by (simp only: n if_False) (simp add: QS_def)
  have "split_skip_empty (QS ''\<newline>\<newline>'') ([] @ QS ''\<newline>\<newline>'' @ QS ''b'')
      = (if ([] :: qstring) = [] then [] else [[]]) @ split_skip_empty (QS ''\<newline>\<newline>'') (QS ''b'')"
    using markup_partition_differs [of "[]" "[]" "QS ''b''" "[]"] h3 by blast
  then have c: "split_skip_empty (QS ''\<newline>\<newline>'') (QS ''\<newline>\<newline>b'')
       = split_skip_empty (QS ''\<newline>\<newline>'') (QS ''b'')"
    by (simp add: QS_def)
  from a b c show ?thesis by blast
qed

end
